theory Spec2Isabelle
  imports Main "HOL-Library.AList"
begin

section \<open>Migration manifests of Trellis: version comparison and migration planning\<close>

text \<open>
  The development follows \<^verbatim>\<open>src/migrations/index.ts\<close>. A JavaScript string is a list
  of 8-bit characters compared by their codes, and \<^verbatim>\<open>undefined\<close> is \<open>None\<close>. The numbers
  of the module are IEEE doubles that hold integers: such a number is modelled by the
  integer it holds, \<open>None\<close> is \<^verbatim>\<open>NaN\<close>, and \<open>2 ^ 1024\<close>, which is above every double,
  stands for \<^verbatim>\<open>Infinity\<close>.
\<close>

subsection \<open>Library functions of JavaScript used by the module\<close>

text \<open>\<^verbatim>\<open>s.split(sep)\<close> for a one-character separator: never the empty array.\<close>

fun split_on :: "char \<Rightarrow> string \<Rightarrow> string list" where
  "split_on sep [] = [[]]"
| "split_on sep (c # cs) =
     (if c = sep then [] # split_on sep cs
      else (case split_on sep cs of
              [] \<Rightarrow> [[c]]
            | seg # segs \<Rightarrow> (c # seg) # segs))"

text \<open>\<^verbatim>\<open>xs[i]\<close>: \<^verbatim>\<open>undefined\<close> outside the array.\<close>

definition at :: "'a list \<Rightarrow> nat \<Rightarrow> 'a option" where
  "at xs i = (if i < length xs then Some (xs ! i) else None)"

definition is_digit :: "char \<Rightarrow> bool" where
  "is_digit c \<longleftrightarrow> (48::nat) \<le> of_char c \<and> of_char c \<le> (57::nat)"

text \<open>The white space and line terminators \<^verbatim>\<open>parseInt\<close> skips, among the 8-bit characters.\<close>

definition is_ws :: "char \<Rightarrow> bool" where
  "is_ws c \<longleftrightarrow> (of_char c :: nat) \<in> {9, 10, 11, 12, 13, 32, 160}"

definition digit_val :: "char \<Rightarrow> int" where
  "digit_val c = int (of_char c) - 48"

definition digits_val :: "string \<Rightarrow> int" where
  "digits_val ds = foldl (\<lambda>acc c. 10 * acc + digit_val c) 0 ds"

text \<open>
  The double nearest to a natural number, ties to the even significand: below \<open>2 ^ 53\<close>
  the number itself, above it the number rounded to 53 significant bits, and
  \<^verbatim>\<open>Infinity\<close> from \<open>2 ^ 1024 - 2 ^ 970\<close> on.
\<close>

definition double_infinity :: int where
  "double_infinity = 2 ^ 1024"

function bit_length :: "int \<Rightarrow> nat" where
  "bit_length n = (if n \<le> 0 then 0 else Suc (bit_length (n div 2)))"
  by pat_completeness auto
termination
  by (relation "measure nat") simp_all

declare bit_length.simps [simp del]

definition round_double :: "int \<Rightarrow> int" where
  "round_double n =
     (if n < 2 ^ 53 then n
      else
        (let e = bit_length n - 53;
             q = n div 2 ^ e;
             r = n mod 2 ^ e;
             half = 2 ^ (e - 1);
             q' = (if half < r \<or> (r = half \<and> odd q) then q + 1 else q)
         in min double_infinity (q' * 2 ^ e)))"

text \<open>
  \<^verbatim>\<open>parseInt(s, 10)\<close>: skip leading white space, read an optional sign, then the longest
  run of decimal digits; \<^verbatim>\<open>NaN\<close> when that run is empty, else the double nearest to the
  number the digits denote (the correctly rounded value, which is what V8 returns; the
  standard lets an engine drop digits after the 20th).
\<close>

definition parseInt10 :: "string \<Rightarrow> int option" where
  "parseInt10 s =
     (let S = dropWhile is_ws s;
          sign = (if S \<noteq> [] \<and> hd S = CHR ''-'' then - 1 else 1);
          S' = (if S \<noteq> [] \<and> (hd S = CHR ''+'' \<or> hd S = CHR ''-'') then tl S else S);
          Z = takeWhile is_digit S'
      in if Z = [] then None else Some (sign * round_double (digits_val Z)))"

text \<open>The decimal digits of a natural number.\<close>

function int_digits :: "int \<Rightarrow> string" where
  "int_digits n =
     (if n < 10 then [char_of (48 + nat n)]
      else int_digits (n div 10) @ [char_of (48 + nat (n mod 10))])"
  by pat_completeness auto
termination
  by (relation "measure nat") simp_all

declare int_digits.simps [simp del]

text \<open>
  The decimal numeral that \<^verbatim>\<open>String\<close> prints for a double \<open>x\<close>: the natural number with
  the fewest significant digits whose nearest double is \<open>x\<close>; among several, the one
  nearest to \<open>x\<close>, and of two equally near the one with the even last significant
  digit (the choice the standard recommends and the engines make). The search tries
  \<open>j\<close> trailing zeros, most first; the two candidates with \<open>j\<close> trailing zeros are the
  multiples of \<open>10 ^ j\<close> around \<open>x\<close>.
\<close>

fun shortest_from :: "int \<Rightarrow> nat \<Rightarrow> int" where
  "shortest_from x 0 = x"
| "shortest_from x (Suc j) =
     (let p = 10 ^ Suc j;
          lo = (x div p) * p;
          hi = lo + p;
          okLo = (round_double lo = x);
          okHi = (round_double hi = x)
      in if okLo \<and> okHi then
           (if x - lo < hi - x then lo
            else if hi - x < x - lo then hi
            else if even (x div p) then lo else hi)
         else if okLo then lo
         else if okHi then hi
         else shortest_from x j)"

definition shortest_decimal :: "int \<Rightarrow> int" where
  "shortest_decimal x = shortest_from x (length (int_digits x) - 1)"

text \<open>
  A numeral of more than 21 digits is printed with an exponent: the first significant
  digit, the other significant digits after a point, then \<^verbatim>\<open>e+\<close> and the exponent.
\<close>

definition exponent_form :: "string \<Rightarrow> string" where
  "exponent_form ds =
     (let mantissa = rev (dropWhile (\<lambda>c. c = CHR ''0'') (rev ds))
      in take 1 mantissa
         @ (if 1 < length mantissa then CHR ''.'' # drop 1 mantissa else [])
         @ ''e+'' @ int_digits (int (length ds) - 1))"

text \<open>\<^verbatim>\<open>String(x)\<close> for a double \<open>x\<close> that holds a natural number.\<close>

definition String_nat :: "int \<Rightarrow> string" where
  "String_nat x =
     (if double_infinity \<le> x then ''Infinity''
      else
        (let ds = int_digits (shortest_decimal x)
         in if length ds \<le> 21 then ds else exponent_form ds))"

text \<open>\<^verbatim>\<open>String(n)\<close> for a number \<open>n\<close> that holds an integer.\<close>

definition String_num :: "int \<Rightarrow> string" where
  "String_num n = (if n < 0 then CHR ''-'' # String_nat (- n) else String_nat n)"

text \<open>\<^verbatim>\<open>x < y\<close> on numbers: false as soon as one side is \<^verbatim>\<open>NaN\<close>.\<close>

fun num_lt :: "int option \<Rightarrow> int option \<Rightarrow> bool" where
  "num_lt (Some x) (Some y) = (x < y)"
| "num_lt _ _ = False"

text \<open>\<^verbatim>\<open>s < t\<close> on strings: the first differing code unit decides, a proper prefix is smaller.\<close>

fun str_lt :: "string \<Rightarrow> string \<Rightarrow> bool" where
  "str_lt [] [] = False"
| "str_lt [] (d # t) = True"
| "str_lt (c # s) [] = False"
| "str_lt (c # s) (d # t) =
     (if (of_char c :: nat) < of_char d then True
      else if (of_char d :: nat) < of_char c then False
      else str_lt s t)"

subsection \<open>compareVersions\<close>

text \<open>
  \<^verbatim>\<open>const [aBase, aPrerelease] = a.split("-", 2)\<close>: the limit cuts the array of all
  pieces down to its first two.
\<close>

definition split_version :: "string \<Rightarrow> string \<times> string option" where
  "split_version v =
     (case take 2 (split_on CHR ''-'' v) of
        [] \<Rightarrow> ([], None)
      | [base] \<Rightarrow> (base, None)
      | base # pre # _ \<Rightarrow> (base, Some pre))"

text \<open>\<^verbatim>\<open>parseInt(n, 10) || 0\<close>: \<^verbatim>\<open>NaN\<close> and \<open>0\<close> are falsy.\<close>

definition or_zero :: "int option \<Rightarrow> int" where
  "or_zero r = (case r of None \<Rightarrow> 0 | Some k \<Rightarrow> if k = 0 then 0 else k)"

definition parseBase :: "string \<Rightarrow> int list" where
  "parseBase v = map (\<lambda>n. or_zero (parseInt10 n)) (split_on CHR ''.'' v)"

text \<open>\<^verbatim>\<open>x ?? 0\<close>\<close>

definition nullish0 :: "int option \<Rightarrow> int" where
  "nullish0 r = (case r of None \<Rightarrow> 0 | Some k \<Rightarrow> k)"

text \<open>
  The loop over the base parts, on the indices still to visit; \<open>Some r\<close> is
  \<^verbatim>\<open>return r\<close>, \<open>None\<close> is falling out of the loop.
\<close>

fun baseLoop :: "int list \<Rightarrow> int list \<Rightarrow> nat list \<Rightarrow> int option" where
  "baseLoop aBaseParts bBaseParts [] = None"
| "baseLoop aBaseParts bBaseParts (i # rest) =
     (let aVal = nullish0 (at aBaseParts i);
          bVal = nullish0 (at bBaseParts i)
      in if aVal < bVal then Some (- 1)
         else if aVal > bVal then Some 1
         else baseLoop aBaseParts bBaseParts rest)"

text \<open>\<^verbatim>\<open>!isNaN(aNum) && String(aNum) === aP\<close>\<close>

definition isNum :: "string \<Rightarrow> bool" where
  "isNum p = (case parseInt10 p of None \<Rightarrow> False | Some n \<Rightarrow> String_num n = p)"

text \<open>The body of the loop over the pre-release fields, once both fields exist.\<close>

definition fieldStep :: "string \<Rightarrow> string \<Rightarrow> int option" where
  "fieldStep aP bP =
     (let aNum = parseInt10 aP;
          bNum = parseInt10 bP;
          aIsNum = isNum aP;
          bIsNum = isNum bP
      in if aIsNum \<and> \<not> bIsNum then Some (- 1)
         else if \<not> aIsNum \<and> bIsNum then Some 1
         else if aIsNum \<and> bIsNum then
           (if num_lt aNum bNum then Some (- 1)
            else if num_lt bNum aNum then Some 1
            else None)
         else
           (if str_lt aP bP then Some (- 1)
            else if str_lt bP aP then Some 1
            else None))"

fun preLoop :: "string list \<Rightarrow> string list \<Rightarrow> nat list \<Rightarrow> int option" where
  "preLoop aPre bPre [] = None"
| "preLoop aPre bPre (i # rest) =
     (case at aPre i of
        None \<Rightarrow> Some (- 1)
      | Some aP \<Rightarrow>
          (case at bPre i of
             None \<Rightarrow> Some 1
           | Some bP \<Rightarrow>
               (case fieldStep aP bP of
                  Some r \<Rightarrow> Some r
                | None \<Rightarrow> preLoop aPre bPre rest)))"

text \<open>\<^verbatim>\<open>!aPrerelease\<close> holds for \<^verbatim>\<open>undefined\<close> and for the empty string.\<close>

definition truthy :: "string option \<Rightarrow> bool" where
  "truthy p = (case p of None \<Rightarrow> False | Some s \<Rightarrow> s \<noteq> [])"

definition comparePre :: "string option \<Rightarrow> string option \<Rightarrow> int" where
  "comparePre aPrerelease bPrerelease =
     (if \<not> truthy aPrerelease \<and> truthy bPrerelease then 1
      else if truthy aPrerelease \<and> \<not> truthy bPrerelease then - 1
      else if \<not> truthy aPrerelease \<and> \<not> truthy bPrerelease then 0
      else
        (let aPre = split_on CHR ''.'' (case aPrerelease of None \<Rightarrow> [] | Some s \<Rightarrow> s);
             bPre = split_on CHR ''.'' (case bPrerelease of None \<Rightarrow> [] | Some s \<Rightarrow> s);
             maxPreLen = max (length aPre) (length bPre)
         in case preLoop aPre bPre [0..<maxPreLen] of
              Some r \<Rightarrow> r
            | None \<Rightarrow> 0))"

definition compareVersions :: "string \<Rightarrow> string \<Rightarrow> int" where
  "compareVersions a b =
     (let (aBase, aPrerelease) = split_version a;
          (bBase, bPrerelease) = split_version b;
          aBaseParts = parseBase aBase;
          bBaseParts = parseBase bBase;
          maxBaseLen = max (length aBaseParts) (length bBaseParts)
      in case baseLoop aBaseParts bBaseParts [0..<maxBaseLen] of
           Some r \<Rightarrow> r
         | None \<Rightarrow> comparePre aPrerelease bPrerelease)"


subsection \<open>Objects with string keys and \<^verbatim>\<open>Array.prototype.sort\<close>\<close>

text \<open>
  A plain object is the list of its own properties in creation order. \<^verbatim>\<open>obj[k] = v\<close>
  overwrites a property in place or adds it at the end; the key \<^verbatim>\<open>__proto__\<close> of an
  object literal is the prototype accessor, so assigning an object to it creates no own
  property.
\<close>

type_synonym 'v object = "(string \<times> 'v) list"

fun object_set :: "'v object \<Rightarrow> string \<Rightarrow> 'v \<Rightarrow> 'v object" where
  "object_set obj k v =
     (if k = ''__proto__'' then obj
      else if k \<in> set (map fst obj) then map (\<lambda>(k', v'). if k' = k then (k', v) else (k', v')) obj
      else obj @ [(k, v)])"

definition object_get :: "'v object \<Rightarrow> string \<Rightarrow> 'v option" where
  "object_get obj k = map_of obj k"

text \<open>
  \<^verbatim>\<open>xs.sort(c)\<close> for a comparator \<open>c\<close>: the sort is stable, so for a consistent
  comparator its result is the one of insertion sort, where an element goes in front of
  the first later element it does not exceed.
\<close>

fun insert_by :: "('a \<Rightarrow> 'a \<Rightarrow> int) \<Rightarrow> 'a \<Rightarrow> 'a list \<Rightarrow> 'a list" where
  "insert_by c x [] = [x]"
| "insert_by c x (y # ys) = (if c x y \<le> 0 then x # y # ys else y # insert_by c x ys)"

definition sort_by :: "('a \<Rightarrow> 'a \<Rightarrow> int) \<Rightarrow> 'a list \<Rightarrow> 'a list" where
  "sort_by c xs = foldr (insert_by c) xs []"

text \<open>
  \<^verbatim>\<open>Object.keys(obj)\<close>: the keys that are array indices (canonical decimal numerals up
  to \<open>2 ^ 32 - 2\<close>) come first, in ascending numeric order, then the other keys in
  creation order.
\<close>

definition is_array_index :: "string \<Rightarrow> bool" where
  "is_array_index k =
     (case parseInt10 k of
        None \<Rightarrow> False
      | Some n \<Rightarrow> String_num n = k \<and> 0 \<le> n \<and> n \<le> 4294967294)"

definition index_order :: "string \<Rightarrow> string \<Rightarrow> int" where
  "index_order j k =
     (if num_lt (parseInt10 j) (parseInt10 k) then - 1
      else if num_lt (parseInt10 k) (parseInt10 j) then 1
      else 0)"

definition Object_keys :: "'v object \<Rightarrow> string list" where
  "Object_keys obj =
     sort_by index_order (filter is_array_index (map fst obj))
       @ filter (\<lambda>k. \<not> is_array_index k) (map fst obj)"

subsection \<open>Manifests and the manifest cache\<close>

text \<open>
  Modelled from the spec: the types \<^verbatim>\<open>MigrationItem\<close> and \<^verbatim>\<open>MigrationManifest\<close> of
  \<^verbatim>\<open>types/migration.ts\<close>, which the module imports and which is not among the sources:
  an item is a rename or a delete with a source path and, for a rename, a destination
  path; a manifest carries its version, its ordered items and the optional metadata.
\<close>

datatype MigrationType = Rename | Delete

record MigrationItem =
  item_type :: MigrationType
  item_from :: string
  item_to :: "string option"

record MigrationManifest =
  version :: string
  migrations :: "MigrationItem list"
  changelog :: "string option"
  breaking :: bool
  recommendMigrate :: bool
  migrationGuide :: "string option"
  aiInstructions :: "string option"

type_synonym registry = "MigrationManifest object"

text \<open>
  What \<^verbatim>\<open>fs.readFileSync\<close> followed by \<^verbatim>\<open>JSON.parse\<close> does for one file: an exception
  (unreadable file, text that is not JSON, or the value \<^verbatim>\<open>null\<close>, on which reading
  \<^verbatim>\<open>.version\<close> throws), a value whose \<^verbatim>\<open>version\<close> is missing, or a value read as
  a \<^verbatim>\<open>MigrationManifest\<close>, as the cast of the source has it.
\<close>

datatype parsed = Throws | NoVersion | Manifest MigrationManifest

text \<open>
  The file system as the loader sees it: whether the manifests directory exists, what
  \<^verbatim>\<open>fs.readdirSync\<close> lists there (\<open>None\<close> when it throws), and the outcome of reading
  and parsing each entry.
\<close>

record fs_env =
  existsSync :: bool
  readdirSync :: "string list option"
  readJSON :: "string \<Rightarrow> parsed"

text \<open>The module state: the cache, and the lines written by \<^verbatim>\<open>console.warn\<close>.\<close>

record module_state =
  manifestCache :: "registry option"
  console_warn :: "string list"

datatype 'a completion = Threw | Returned 'a

definition endsWith :: "string \<Rightarrow> string \<Rightarrow> bool" where
  "endsWith s suffix \<longleftrightarrow> length suffix \<le> length s \<and> drop (length s - length suffix) s = suffix"

text \<open>
  The loop over the files: the body runs inside \<^verbatim>\<open>try\<close>, and the \<^verbatim>\<open>catch\<close> writes
  the warning and goes on with the next file.
\<close>

fun loadLoop :: "(string \<Rightarrow> parsed) \<Rightarrow> string list \<Rightarrow> registry \<times> string list \<Rightarrow> registry \<times> string list" where
  "loadLoop rd [] acc = acc"
| "loadLoop rd (file # files) (manifests, warned) =
     (case rd file of
        Throws \<Rightarrow>
          loadLoop rd files
            (manifests, warned @ [''Warning: Failed to load migration manifest '' @ file])
      | NoVersion \<Rightarrow> loadLoop rd files (manifests, warned)
      | Manifest manifest \<Rightarrow>
          if version manifest \<noteq> []
          then loadLoop rd files (object_set manifests (version manifest) manifest, warned)
          else loadLoop rd files (manifests, warned))"

definition loadManifests :: "fs_env \<Rightarrow> module_state \<Rightarrow> registry completion \<times> module_state" where
  "loadManifests env st =
     (case manifestCache st of
        Some cached \<Rightarrow> (Returned cached, st)
      | None \<Rightarrow>
          if \<not> existsSync env then (Returned [], st\<lparr>manifestCache := Some []\<rparr>)
          else
            (case readdirSync env of
               None \<Rightarrow> (Threw, st)
             | Some entries \<Rightarrow>
                 (let files = filter (\<lambda>f. endsWith f ''.json'') entries;
                      (manifests, warned) = loadLoop (readJSON env) files ([], console_warn st)
                  in (Returned manifests,
                      st\<lparr>manifestCache := Some manifests, console_warn := warned\<rparr>))))"

definition clearManifestCache :: "module_state \<Rightarrow> module_state" where
  "clearManifestCache st = st\<lparr>manifestCache := None\<rparr>"

subsection \<open>getMigrationsForVersion\<close>

definition applicableVersions :: "registry \<Rightarrow> string \<Rightarrow> string \<Rightarrow> string list" where
  "applicableVersions manifests fromVersion toVersion =
     (let versions = sort_by compareVersions (Object_keys manifests)
      in filter (\<lambda>v.
           let afterFrom = compareVersions v fromVersion > 0;
               atOrBeforeTo = compareVersions v toVersion \<le> 0
           in afterFrom \<and> atOrBeforeTo) versions)"

text \<open>The loop that pushes the items of each applicable manifest.\<close>

fun collectLoop :: "registry \<Rightarrow> string list \<Rightarrow> MigrationItem list \<Rightarrow> MigrationItem list" where
  "collectLoop manifests [] allMigrations = allMigrations"
| "collectLoop manifests (v # rest) allMigrations =
     (case object_get manifests v of
        Some manifest \<Rightarrow> collectLoop manifests rest (allMigrations @ migrations manifest)
      | None \<Rightarrow> collectLoop manifests rest allMigrations)"

text \<open>The body of \<^verbatim>\<open>getMigrationsForVersion\<close> once the manifests are loaded.\<close>

definition migrationsBetween :: "registry \<Rightarrow> string \<Rightarrow> string \<Rightarrow> MigrationItem list" where
  "migrationsBetween manifests fromVersion toVersion =
     collectLoop manifests (applicableVersions manifests fromVersion toVersion) []"

definition getMigrationsForVersion ::
    "fs_env \<Rightarrow> module_state \<Rightarrow> string \<Rightarrow> string \<Rightarrow> MigrationItem list completion \<times> module_state" where
  "getMigrationsForVersion env st fromVersion toVersion =
     (case loadManifests env st of
        (Threw, st') \<Rightarrow> (Threw, st')
      | (Returned manifests, st') \<Rightarrow>
          (Returned (migrationsBetween manifests fromVersion toVersion), st'))"


subsection \<open>Comparators as total preorders\<close>

fun lex_compare :: "('x \<Rightarrow> 'x \<Rightarrow> int) \<Rightarrow> 'x list \<Rightarrow> 'x list \<Rightarrow> int" where
  "lex_compare c (x # xs) (y # ys) = (if c x y \<noteq> 0 then c x y else lex_compare c xs ys)"
| "lex_compare c _ _ = 0"

definition preorder_cmp :: "('x \<Rightarrow> 'x \<Rightarrow> int) \<Rightarrow> bool" where
  "preorder_cmp c \<longleftrightarrow> (\<forall>x y. c y x = - c x y) \<and> (\<forall>x y z. c x y \<le> 0 \<longrightarrow> c y z \<le> 0 \<longrightarrow> c x z \<le> 0)"

definition then_compare :: "('x \<Rightarrow> 'x \<Rightarrow> int) \<Rightarrow> ('x \<Rightarrow> 'x \<Rightarrow> int) \<Rightarrow> 'x \<Rightarrow> 'x \<Rightarrow> int" where
  "then_compare c d x y = (if c x y \<noteq> 0 then c x y else d x y)"

definition compare_with :: "('x \<Rightarrow> 'x \<Rightarrow> bool) \<Rightarrow> 'x \<Rightarrow> 'x \<Rightarrow> int" where
  "compare_with lt x y = (if lt x y then - 1 else if lt y x then 1 else 0)"

definition field_lt :: "string \<Rightarrow> string \<Rightarrow> bool" where
  "field_lt a b \<longleftrightarrow>
     (isNum a \<and> \<not> isNum b) \<or>
     (isNum a \<and> isNum b \<and> num_lt (parseInt10 a) (parseInt10 b)) \<or>
     (\<not> isNum a \<and> \<not> isNum b \<and> str_lt a b)"

fun slot_lt :: "string option \<Rightarrow> string option \<Rightarrow> bool" where
  "slot_lt None (Some b) = True"
| "slot_lt (Some a) (Some b) = field_lt a b"
| "slot_lt _ None = False"

definition baseSlots :: "nat \<Rightarrow> string \<Rightarrow> int list" where
  "baseSlots N v = map (\<lambda>i. nullish0 (at (parseBase (fst (split_version v))) i)) [0..<N]"

definition preFields :: "string \<Rightarrow> string list" where
  "preFields v =
     (case snd (split_version v) of
        None \<Rightarrow> []
      | Some s \<Rightarrow> if s = [] then [] else split_on CHR ''.'' s)"

definition preSlots :: "nat \<Rightarrow> string \<Rightarrow> string option list" where
  "preSlots M v = map (at (preFields v)) [0..<M]"

definition releaseRank :: "string \<Rightarrow> int" where
  "releaseRank v = (if truthy (snd (split_version v)) then 0 else 1)"

definition versionOrder :: "nat \<Rightarrow> nat \<Rightarrow> string \<Rightarrow> string \<Rightarrow> int" where
  "versionOrder N M =
     then_compare (\<lambda>a b. lex_compare (compare_with (<)) (baseSlots N a) (baseSlots N b))
       (then_compare (\<lambda>a b. compare_with (<) (releaseRank a) (releaseRank b))
          (\<lambda>a b. lex_compare (compare_with slot_lt) (preSlots M a) (preSlots M b)))"

subsection \<open>Notions used to state the properties\<close>

text \<open>A registry as the loader builds it: one entry per version, filed under that version.\<close>

definition wf_registry :: "registry \<Rightarrow> bool" where
  "wf_registry manifests \<longleftrightarrow>
     distinct (map fst manifests) \<and> list_all (\<lambda>(k, m). version m = k) manifests"

text \<open>The invariant of the module state: what the cache holds is such a registry.\<close>

definition cache_ok :: "module_state \<Rightarrow> bool" where
  "cache_ok st = (case manifestCache st of None \<Rightarrow> True | Some manifests \<Rightarrow> wf_registry manifests)"

text \<open>The manifests of the example: one rename at 0.2.0, one delete at 0.3.0.\<close>

definition rename_item :: MigrationItem where
  "rename_item = \<lparr>item_type = Rename, item_from = ''old.md'', item_to = Some ''new.md''\<rparr>"

definition delete_item :: MigrationItem where
  "delete_item = \<lparr>item_type = Delete, item_from = ''gone.md'', item_to = None\<rparr>"

definition manifest_of :: "string \<Rightarrow> MigrationItem list \<Rightarrow> MigrationManifest" where
  "manifest_of v items =
     \<lparr>version = v, migrations = items, changelog = None, breaking = False,
      recommendMigrate = False, migrationGuide = None, aiInstructions = None\<rparr>"

definition example_env :: fs_env where
  "example_env =
     \<lparr>existsSync = True,
      readdirSync = Some [''0.3.0.json'', ''0.2.0.json''],
      readJSON = (\<lambda>f. if f = ''0.2.0.json'' then Manifest (manifest_of ''0.2.0'' [rename_item])
                       else if f = ''0.3.0.json'' then Manifest (manifest_of ''0.3.0'' [delete_item])
                       else Throws)\<rparr>"

definition cold :: module_state where
  "cold = \<lparr>manifestCache = None, console_warn = []\<rparr>"

text \<open>A directory with one valid manifest file and one file that is not JSON.\<close>

definition resilience_env :: fs_env where
  "resilience_env =
     \<lparr>existsSync = True,
      readdirSync = Some [''broken.json'', ''0.2.0.json''],
      readJSON = (\<lambda>f. if f = ''0.2.0.json'' then Manifest (manifest_of ''0.2.0'' [rename_item])
                       else Throws)\<rparr>"

text \<open>
  The two parts of a version as the specification words them: the base is the text left
  of the first hyphen, the pre-release suffix is everything after the first hyphen
  (\<open>None\<close> for a version without a hyphen).
\<close>

definition spec_base :: "string \<Rightarrow> string" where
  "spec_base v = takeWhile (\<lambda>c. c \<noteq> CHR ''-'') v"

definition spec_suffix :: "string \<Rightarrow> string option" where
  "spec_suffix v =
     (if CHR ''-'' \<in> set v then Some (tl (dropWhile (\<lambda>c. c \<noteq> CHR ''-'') v)) else None)"

text \<open>\<^verbatim>\<open>parts.join(sep)\<close>, to write a version from its components.\<close>

fun join_with :: "char \<Rightarrow> string list \<Rightarrow> string" where
  "join_with sep [] = []"
| "join_with sep [x] = x"
| "join_with sep (x # y # ys) = x @ sep # join_with sep (y # ys)"

text \<open>A decimal numeral in canonical form: digits only, no leading zero except for 0 itself.\<close>

definition canonicalDecimal :: "string \<Rightarrow> bool" where
  "canonicalDecimal f \<longleftrightarrow> f \<noteq> [] \<and> list_all is_digit f \<and> (f = ''0'' \<or> hd f \<noteq> CHR ''0'')"

text \<open>
  The comparison of two pre-release suffixes as the specification words it, on their
  fields: a missing field makes the shorter one first, a numeric field comes before a
  non-numeric one, two numeric fields compare by value, two others as strings.
\<close>

fun spec_compare_fields :: "string list \<Rightarrow> string list \<Rightarrow> int" where
  "spec_compare_fields [] [] = 0"
| "spec_compare_fields [] (y # ys) = - 1"
| "spec_compare_fields (x # xs) [] = 1"
| "spec_compare_fields (x # xs) (y # ys) =
     (if canonicalDecimal x \<and> \<not> canonicalDecimal y then - 1
      else if \<not> canonicalDecimal x \<and> canonicalDecimal y then 1
      else if canonicalDecimal x \<and> canonicalDecimal y then
        (if digits_val x < digits_val y then - 1
         else if digits_val y < digits_val x then 1
         else spec_compare_fields xs ys)
      else
        (if str_lt x y then - 1
         else if str_lt y x then 1
         else spec_compare_fields xs ys))"

subsection \<open>The template reconciler\<close>

text \<open>
  Modelled from the spec: the template reconciler, the fingerprint store and the version
  store (the \<^verbatim>\<open>update\<close> command of the repository), which are not among the sources. A
  project is what the reconciler reads and writes: the diskFiles on disk by relative path,
  the fingerprint recorded for a path at the last write by the tool, the recorded
  version, and the platforms selected at initialisation.
\<close>

record project =
  diskFiles :: "string \<rightharpoonup> string"
  fingerprints :: "string \<rightharpoonup> string"
  versionMarker :: string
  platforms :: "string list"

record reconcile_options =
  dryRun :: bool
  strictMode :: bool

datatype file_op =
    Created string
  | Updated string
  | Deleted string
  | Moved string string
  | BackedUp string string

text \<open>
  Modelled from the spec: one structural migration applied to the project. A rename
  moves the file and its fingerprint when the source exists, a delete removes them; an
  absent source is left alone.
\<close>

definition applyMigration :: "MigrationItem \<Rightarrow> project \<Rightarrow> file_op list \<times> project" where
  "applyMigration item proj =
     (case diskFiles proj (item_from item) of
        None \<Rightarrow> ([], proj)
      | Some content \<Rightarrow>
          (case item_type item of
             Delete \<Rightarrow>
               ([Deleted (item_from item)],
                proj\<lparr>diskFiles := (diskFiles proj)(item_from item := None),
                     fingerprints := (fingerprints proj)(item_from item := None)\<rparr>)
           | Rename \<Rightarrow>
               (case item_to item of
                  None \<Rightarrow> ([], proj)
                | Some dest \<Rightarrow>
                    ([Moved (item_from item) dest],
                     proj\<lparr>diskFiles := (diskFiles proj)(item_from item := None, dest \<mapsto> content),
                          fingerprints := (fingerprints proj)
                            (item_from item := None, dest := fingerprints proj (item_from item))\<rparr>))))"

fun applyMigrations :: "MigrationItem list \<Rightarrow> project \<Rightarrow> file_op list \<times> project" where
  "applyMigrations [] proj = ([], proj)"
| "applyMigrations (item # plan) proj =
     (let (ops, proj') = applyMigration item proj;
          (ops', proj'') = applyMigrations plan proj'
      in (ops @ ops', proj''))"

text \<open>
  Modelled from the spec: the decision table of the reconciler for one template file.
  The file on disk matches its fingerprint when its hash is the recorded one; the
  template has changed since the last write when the recorded hash is not the hash of
  the template. A path with no fingerprint is not tool-managed.
\<close>

datatype decision = DoCreate | DoSkip | DoOverwrite | DoConflict

definition decide :: "(string \<Rightarrow> string) \<Rightarrow> project \<Rightarrow> string \<Rightarrow> string \<Rightarrow> decision" where
  "decide hashOf proj path template =
     (case diskFiles proj path of
        None \<Rightarrow> DoCreate
      | Some onDisk \<Rightarrow>
          (let fingerprintMatches = (fingerprints proj path = Some (hashOf onDisk));
               templateChanged = (fingerprints proj path \<noteq> Some (hashOf template))
           in if fingerprintMatches \<and> \<not> templateChanged then DoSkip
              else if fingerprintMatches \<and> templateChanged then DoOverwrite
              else if \<not> fingerprintMatches \<and> \<not> templateChanged then DoSkip
              else DoConflict))"

text \<open>
  Modelled from the spec: the action for one template file. A write records the new
  fingerprint; a conflict backs the user's version up and then overwrites, or in the
  stricter mode skips and reports.
\<close>

definition writeTemplate :: "(string \<Rightarrow> string) \<Rightarrow> string \<Rightarrow> string \<Rightarrow> project \<Rightarrow> project" where
  "writeTemplate hashOf path template proj =
     proj\<lparr>diskFiles := (diskFiles proj)(path \<mapsto> template),
          fingerprints := (fingerprints proj)(path \<mapsto> hashOf template)\<rparr>"

definition applyTemplate ::
    "reconcile_options \<Rightarrow> (string \<Rightarrow> string) \<Rightarrow> (string \<Rightarrow> string) \<Rightarrow> string \<times> string
       \<Rightarrow> project \<Rightarrow> file_op list \<times> project" where
  "applyTemplate opts hashOf backupPath tf proj =
     (case decide hashOf proj (fst tf) (snd tf) of
        DoCreate \<Rightarrow> ([Created (fst tf)], writeTemplate hashOf (fst tf) (snd tf) proj)
      | DoSkip \<Rightarrow> ([], proj)
      | DoOverwrite \<Rightarrow> ([Updated (fst tf)], writeTemplate hashOf (fst tf) (snd tf) proj)
      | DoConflict \<Rightarrow>
          if strictMode opts then ([], proj)
          else
            ([BackedUp (fst tf) (backupPath (fst tf)), Updated (fst tf)],
             writeTemplate hashOf (fst tf) (snd tf)
               (proj\<lparr>diskFiles := (diskFiles proj)(backupPath (fst tf) := diskFiles proj (fst tf))\<rparr>)))"

fun applyTemplates ::
    "reconcile_options \<Rightarrow> (string \<Rightarrow> string) \<Rightarrow> (string \<Rightarrow> string) \<Rightarrow> (string \<times> string) list
       \<Rightarrow> project \<Rightarrow> file_op list \<times> project" where
  "applyTemplates opts hashOf backupPath [] proj = ([], proj)"
| "applyTemplates opts hashOf backupPath (tf # tfs) proj =
     (let (ops, proj') = applyTemplate opts hashOf backupPath tf proj;
          (ops', proj'') = applyTemplates opts hashOf backupPath tfs proj'
      in (ops @ ops', proj''))"

text \<open>
  Modelled from the spec: the current templates are a finite map from a relative path
  to the platform the template belongs to and its resolved content, written as an
  association list in which the first binding of a path is its binding. The candidates
  are the templates of that map whose platform is selected; the decision table runs once
  for each candidate path.
\<close>

definition candidateTemplates ::
    "(string \<times> string \<times> string) list \<Rightarrow> string list \<Rightarrow> (string \<times> string) list" where
  "candidateTemplates currentTemplates selection =
     map (\<lambda>(path, platform, content). (path, content))
       (filter (\<lambda>(path, platform, content). platform \<in> set selection)
          (AList.clearjunk currentTemplates))"

text \<open>
  Modelled from the spec: one reconciliation. The migrations from the recorded version
  to the target are applied first, then the decision table runs over the candidate
  templates, then the target is recorded unless that would lower the version. The
  result is the list of file operations performed and the new project; a dry run
  performs none.
\<close>

definition reconcile ::
    "registry \<Rightarrow> (string \<Rightarrow> string) \<Rightarrow> (string \<Rightarrow> string) \<Rightarrow> (string \<times> string \<times> string) list
       \<Rightarrow> reconcile_options \<Rightarrow> string \<Rightarrow> project \<Rightarrow> file_op list \<times> project" where
  "reconcile manifests hashOf backupPath currentTemplates opts targetVersion proj =
     (if dryRun opts then ([], proj)
      else
        (let plan = migrationsBetween manifests (versionMarker proj) targetVersion;
             (ops, migrated) = applyMigrations plan proj;
             candidates = candidateTemplates currentTemplates (platforms proj);
             (ops', written) = applyTemplates opts hashOf backupPath candidates migrated;
             recorded = (if compareVersions targetVersion (versionMarker proj) < 0 then written
                         else written\<lparr>versionMarker := targetVersion\<rparr>)
         in (ops @ ops', recorded)))"

text \<open>A template file asks for nothing more: it is on disk, and either its fingerprint is
  the template's, or (stricter mode) it is a user edit left in place.\<close>

definition settled ::
    "reconcile_options \<Rightarrow> (string \<Rightarrow> string) \<Rightarrow> project \<Rightarrow> string \<times> string \<Rightarrow> bool" where
  "settled opts hashOf proj tf =
     (case diskFiles proj (fst tf) of
        None \<Rightarrow> False
      | Some onDisk \<Rightarrow>
          fingerprints proj (fst tf) = Some (hashOf (snd tf))
          \<or> (strictMode opts \<and> fingerprints proj (fst tf) \<noteq> Some (hashOf onDisk)))"

text \<open>A small project for the examples: two selected platforms that both offer
  \<^verbatim>\<open>a.md\<close>, one file edited by the user, one file missing.\<close>

definition example_templates :: "(string \<times> string \<times> string) list" where
  "example_templates =
     [(''a.md'', ''claude'', ''A2''), (''b.md'', ''claude'', ''B1''),
      (''a.md'', ''cursor'', ''A3''), (''c.md'', ''iflow'', ''C1'')]"

definition example_project :: project where
  "example_project =
     \<lparr>diskFiles = [''a.md'' \<mapsto> ''mine''], fingerprints = [''a.md'' \<mapsto> ''#A1''],
      versionMarker = ''0.1.0'', platforms = [''claude'', ''cursor'']\<rparr>"

definition example_hash :: "string \<Rightarrow> string" where
  "example_hash content = CHR ''#'' # content"

definition example_backup :: "string \<Rightarrow> string" where
  "example_backup path = path @ ''.bak''"

section \<open>The version comparator is a total preorder\<close>

lemma preorder_cmp_flip: "preorder_cmp c \<Longrightarrow> c y x = - c x y"
  unfolding preorder_cmp_def by blast

lemma preorder_cmp_trans: "preorder_cmp c \<Longrightarrow> c x y \<le> 0 \<Longrightarrow> c y z \<le> 0 \<Longrightarrow> c x z \<le> 0"
  unfolding preorder_cmp_def by blast

lemma preorder_cmp_lt_le: 
  assumes "preorder_cmp c" "c x y < 0" "c y z \<le> 0" shows "c x z < 0"
proof (rule ccontr)
  assume "\<not> c x z < 0"
  then have "c z x \<le> 0" using preorder_cmp_flip[OF assms(1), of x z] by simp
  with assms(3) have "c y x \<le> 0" using preorder_cmp_trans[OF assms(1)] by blast
  then show False using assms(2) preorder_cmp_flip[OF assms(1), of x y] by simp
qed

lemma preorder_cmp_le_lt: 
  assumes "preorder_cmp c" "c x y \<le> 0" "c y z < 0" shows "c x z < 0"
proof (rule ccontr)
  assume "\<not> c x z < 0"
  then have "c z x \<le> 0" using preorder_cmp_flip[OF assms(1), of x z] by simp
  with assms(2) have "c z y \<le> 0" using preorder_cmp_trans[OF assms(1)] by blast
  then show False using assms(3) preorder_cmp_flip[OF assms(1), of y z] by simp
qed

lemma preorder_cmp_eq_eq:
  assumes "preorder_cmp c" "c x y = 0" "c y z = 0" shows "c x z = 0"
proof -
  have "c x z \<le> 0" using preorder_cmp_trans[OF assms(1), of x y z] assms by simp
  moreover have "c y x = 0" "c z y = 0"
    using assms(2,3) preorder_cmp_flip[OF assms(1), of x y] preorder_cmp_flip[OF assms(1), of y z] by simp_all
  then have "c z x \<le> 0" using preorder_cmp_trans[OF assms(1), of z y x] by simp
  ultimately show ?thesis using preorder_cmp_flip[OF assms(1), of x z] by simp
qed

lemma preorder_cmp_then_compare:
  assumes c: "preorder_cmp c" and d: "preorder_cmp d" shows "preorder_cmp (then_compare c d)"
  unfolding preorder_cmp_def
proof (intro conjI allI impI)
  fix x y show "then_compare c d y x = - then_compare c d x y"
    using preorder_cmp_flip[OF c, of x y] preorder_cmp_flip[OF d, of x y] by (simp add: then_compare_def)
next
  fix x y z
  assume xy: "then_compare c d x y \<le> 0" and yz: "then_compare c d y z \<le> 0"
  from xy have xy': "c x y < 0 \<or> (c x y = 0 \<and> d x y \<le> 0)"
    by (auto simp: then_compare_def split: if_splits)
  from yz have yz': "c y z < 0 \<or> (c y z = 0 \<and> d y z \<le> 0)"
    by (auto simp: then_compare_def split: if_splits)
  consider (a) "c x y < 0" | (b) "c x y = 0" "d x y \<le> 0" "c y z < 0" 
    | (e) "c x y = 0" "d x y \<le> 0" "c y z = 0" "d y z \<le> 0"
    using xy' yz' by blast
  then show "then_compare c d x z \<le> 0"
  proof cases
    case a
    moreover have "c y z \<le> 0" using yz' by auto
    ultimately have "c x z < 0" using preorder_cmp_lt_le[OF c] by blast
    then show ?thesis by (simp add: then_compare_def)
  next
    case b
    then have "c x z < 0" using preorder_cmp_le_lt[OF c, of x y z] by simp
    then show ?thesis by (simp add: then_compare_def)
  next
    case e
    then have "c x z = 0" "d x z \<le> 0" using preorder_cmp_eq_eq[OF c, of x y z] preorder_cmp_trans[OF d, of x y z] by simp_all
    then show ?thesis by (simp add: then_compare_def)
  qed
qed

lemma lex_compare_flip:
  "preorder_cmp c \<Longrightarrow> lex_compare c ys xs = - lex_compare c xs ys"
proof (induction c xs ys rule: lex_compare.induct)
  case (1 c x xs y ys)
  then show ?case using preorder_cmp_flip[OF 1(2), of x y] by simp
qed simp_all

lemma lex_compare_trans:
  assumes c: "preorder_cmp c"
  shows "length xs = length ys \<Longrightarrow> length ys = length zs \<Longrightarrow>
     lex_compare c xs ys \<le> 0 \<Longrightarrow> lex_compare c ys zs \<le> 0 \<Longrightarrow> lex_compare c xs zs \<le> 0"
proof (induction xs ys zs rule: list_induct3)
  case Nil
  then show ?case by simp
next
  case (Cons x xs y ys z zs)
  from Cons.prems(1) have xy': "c x y < 0 \<or> (c x y = 0 \<and> lex_compare c xs ys \<le> 0)"
    by (auto split: if_splits)
  from Cons.prems(2) have yz': "c y z < 0 \<or> (c y z = 0 \<and> lex_compare c ys zs \<le> 0)"
    by (auto split: if_splits)
  consider (a) "c x y < 0" | (b) "c x y = 0" "lex_compare c xs ys \<le> 0" "c y z < 0" 
    | (e) "c x y = 0" "lex_compare c xs ys \<le> 0" "c y z = 0" "lex_compare c ys zs \<le> 0"
    using xy' yz' by blast
  then show ?case
  proof cases
    case a
    moreover have "c y z \<le> 0" using yz' by auto
    ultimately have "c x z < 0" using preorder_cmp_lt_le[OF c] by blast
    then show ?thesis by simp
  next
    case b
    then have "c x z < 0" using preorder_cmp_le_lt[OF c, of x y z] by simp
    then show ?thesis by simp
  next
    case e
    then have "c x z = 0" "lex_compare c xs zs \<le> 0" using preorder_cmp_eq_eq[OF c, of x y z] Cons.IH by simp_all
    then show ?thesis by simp
  qed
qed

lemma lex_compare_append:
  "length xs = length ys \<Longrightarrow>
   lex_compare c (xs @ xs') (ys @ ys') = (if lex_compare c xs ys \<noteq> 0 then lex_compare c xs ys else lex_compare c xs' ys')"
  by (induction xs ys rule: list_induct2) auto

lemma lex_compare_map_zero:
  "(\<And>i. i \<in> set idx \<Longrightarrow> c (f i) (g i) = 0) \<Longrightarrow> lex_compare c (map f idx) (map g idx) = 0"
  by (induction idx) auto

lemma lex_compare_pad:
  assumes "n \<le> N" and "\<And>i. n \<le> i \<Longrightarrow> c (f i) (g i) = 0"
  shows "lex_compare c (map f [0..<N]) (map g [0..<N]) = lex_compare c (map f [0..<n]) (map g [0..<n])"
proof -
  have "[0..<n + (N - n)] = [0..<n] @ [n..<n + (N - n)]"
    by (rule upt_add_eq_append) simp
  then have "[0..<N] = [0..<n] @ [n..<N]" using assms(1) by simp
  moreover have "lex_compare c (map f [n..<N]) (map g [n..<N]) = 0"
    by (rule lex_compare_map_zero) (simp add: assms(2))
  ultimately show ?thesis by (simp add: lex_compare_append)
qed

lemma preorder_cmp_compare_with:
  assumes irr: "\<And>x. \<not> lt x x"
    and tr: "\<And>x y z. lt x y \<Longrightarrow> lt y z \<Longrightarrow> lt x z"
    and tot: "\<And>x y. lt x y \<or> x = y \<or> lt y x"
  shows "preorder_cmp (compare_with lt)"
  unfolding preorder_cmp_def
proof (intro conjI allI impI)
  fix x y
  have "\<not> (lt x y \<and> lt y x)" using irr tr by blast
  then show "compare_with lt y x = - compare_with lt x y" by (auto simp: compare_with_def)
next
  fix x y z
  assume le: "compare_with lt x y \<le> 0" "compare_with lt y z \<le> 0"
  have asym: "\<And>u v. lt u v \<Longrightarrow> \<not> lt v u" using irr tr by blast
  have a: "\<not> lt y x" "\<not> lt z y"
    using le asym[of x y] asym[of y z] by (auto simp: compare_with_def split: if_splits)
  have "\<not> lt z x"
  proof
    assume zx: "lt z x"
    from tot[of x y] a(1) have "lt x y \<or> x = y" by blast
    then have "lt z y" using zx tr by blast
    with a(2) show False by simp
  qed
  then show "compare_with lt x z \<le> 0" by (simp add: compare_with_def)
qed

lemma str_lt_irrefl: "\<not> str_lt s s"
  by (induction s) auto

lemma str_lt_trans: "str_lt s t \<Longrightarrow> str_lt t u \<Longrightarrow> str_lt s u"
proof (induction s t arbitrary: u rule: str_lt.induct)
  case (4 c s d t)
  then show ?case by (cases u) (auto split: if_splits)
qed (auto elim: str_lt.elims)

lemma str_lt_total: "str_lt s t \<or> s = t \<or> str_lt t s"
proof (induction s t rule: str_lt.induct)
  case (4 c s d t)
  then show ?case by (auto simp: linorder_neq_iff dest: of_char_eq_iff[THEN iffD1])
qed auto

lemma isNum_String: "isNum p \<Longrightarrow> \<exists>n. parseInt10 p = Some n \<and> String_num n = p"
  by (auto simp: isNum_def split: option.splits)

lemma field_lt_irrefl: "\<not> field_lt a a"
  by (auto simp: field_lt_def str_lt_irrefl dest!: isNum_String)

lemma num_lt_trans: "num_lt x y \<Longrightarrow> num_lt y z \<Longrightarrow> num_lt x z"
  by (cases x; cases y; cases z) auto

lemma field_lt_trans: "field_lt a b \<Longrightarrow> field_lt b c \<Longrightarrow> field_lt a c"
  by (cases "isNum a"; cases "isNum b"; cases "isNum c")
     (auto simp: field_lt_def dest: str_lt_trans num_lt_trans)

lemma field_lt_total: "field_lt a b \<or> a = b \<or> field_lt b a"
proof (cases "isNum a"; cases "isNum b")
  assume ab: "isNum a" "isNum b"
  then obtain n m where "parseInt10 a = Some n" "String_num n = a" "parseInt10 b = Some m" "String_num m = b"
    by (auto dest!: isNum_String)
  then show ?thesis using ab by (cases "n < m"; cases "m < n") (auto simp: field_lt_def)
qed (use str_lt_total[of a b] in \<open>auto simp: field_lt_def\<close>)

lemma slot_lt_irrefl: "\<not> slot_lt x x"
  by (cases x) (auto simp: field_lt_irrefl)

lemma slot_lt_trans: "slot_lt x y \<Longrightarrow> slot_lt y z \<Longrightarrow> slot_lt x z"
  by (cases x; cases y; cases z) (auto dest: field_lt_trans)

lemma slot_lt_total: "slot_lt x y \<or> x = y \<or> slot_lt y x"
  using field_lt_total by (cases x; cases y) auto

lemma preorder_cmp_slot: "preorder_cmp (compare_with slot_lt)"
proof (rule preorder_cmp_compare_with)
  fix x y z :: "string option"
  show "\<not> slot_lt x x" by (rule slot_lt_irrefl)
  show "slot_lt x y \<Longrightarrow> slot_lt y z \<Longrightarrow> slot_lt x z" by (rule slot_lt_trans)
  show "slot_lt x y \<or> x = y \<or> slot_lt y x" by (rule slot_lt_total)
qed

lemma preorder_cmp_int: "preorder_cmp (compare_with ((<) :: int \<Rightarrow> int \<Rightarrow> bool))"
  by (rule preorder_cmp_compare_with) auto

lemma fieldStep_cmp: "fieldStep a b = (if field_lt a b then Some (- 1) else if field_lt b a then Some 1 else None)"
proof -
  have "\<not> (field_lt a b \<and> field_lt b a)" using field_lt_irrefl field_lt_trans by blast
  then show ?thesis
    by (auto simp: fieldStep_def field_lt_def Let_def)
qed

lemma baseLoop_lex_compare:
  "baseLoop A B idx =
     (let r = lex_compare (compare_with (<)) (map (\<lambda>i. nullish0 (at A i)) idx) (map (\<lambda>i. nullish0 (at B i)) idx)
      in if r = 0 then None else Some r)"
  by (induction idx) (auto simp: Let_def compare_with_def)

lemma preLoop_lex_compare:
  "(\<And>i. i \<in> set idx \<Longrightarrow> i < length A \<or> i < length B) \<Longrightarrow>
   preLoop A B idx =
     (let r = lex_compare (compare_with slot_lt) (map (at A) idx) (map (at B) idx)
      in if r = 0 then None else Some r)"
proof (induction idx)
  case Nil
  then show ?case by simp
next
  case (Cons i idx)
  have nn: "\<not> (at A i = None \<and> at B i = None)"
    using Cons.prems[of i] by (auto simp: at_def)
  have irr: "\<And>x. \<not> field_lt x x" by (rule field_lt_irrefl)
  have asym: "\<And>x y. field_lt x y \<Longrightarrow> \<not> field_lt y x"
    using field_lt_irrefl field_lt_trans by blast
  show ?case
    using nn Cons.IH Cons.prems asym
    by (cases "at A i"; cases "at B i")
       (auto simp: Let_def compare_with_def fieldStep_cmp)
qed

lemma preorder_cmp_on_key:
  "preorder_cmp c \<Longrightarrow> preorder_cmp (\<lambda>a b. c (k a) (k b))"
  unfolding preorder_cmp_def by blast

lemma preorder_cmp_lex_compare_key:
  assumes c: "preorder_cmp c" and len: "\<And>a. length (k a) = n"
  shows "preorder_cmp (\<lambda>a b. lex_compare c (k a) (k b))"
  unfolding preorder_cmp_def
proof (intro conjI allI impI)
  fix x y show "lex_compare c (k y) (k x) = - lex_compare c (k x) (k y)"
    by (rule lex_compare_flip[OF c])
next
  fix x y z
  assume "lex_compare c (k x) (k y) \<le> 0" "lex_compare c (k y) (k z) \<le> 0"
  then show "lex_compare c (k x) (k z) \<le> 0"
    using lex_compare_trans[OF c, of "k x" "k y" "k z"] len by simp
qed

lemma preorder_cmp_versionOrder: "preorder_cmp (versionOrder N M)"
proof -
  have b: "preorder_cmp (\<lambda>a b. lex_compare (compare_with (<)) (baseSlots N a) (baseSlots N b))"
    by (rule preorder_cmp_lex_compare_key[OF preorder_cmp_int, where n = N]) (simp add: baseSlots_def)
  have r: "preorder_cmp (\<lambda>a b. compare_with (<) (releaseRank a) (releaseRank b))"
    by (rule preorder_cmp_on_key[OF preorder_cmp_int])
  have p: "preorder_cmp (\<lambda>a b. lex_compare (compare_with slot_lt) (preSlots M a) (preSlots M b))"
    by (rule preorder_cmp_lex_compare_key[OF preorder_cmp_slot, where n = M]) (simp add: preSlots_def)
  show ?thesis
    unfolding versionOrder_def by (rule preorder_cmp_then_compare[OF b preorder_cmp_then_compare[OF r p]])
qed

lemma at_beyond: "length xs \<le> i \<Longrightarrow> at xs i = None"
  by (simp add: at_def)

lemma comparePre_order:
  assumes "length (preFields a) \<le> M" "length (preFields b) \<le> M"
  shows "comparePre (snd (split_version a)) (snd (split_version b)) =
     then_compare (\<lambda>a b. compare_with (<) (releaseRank a) (releaseRank b))
          (\<lambda>a b. lex_compare (compare_with slot_lt) (preSlots M a) (preSlots M b)) a b"
proof (cases "truthy (snd (split_version a)) \<and> truthy (snd (split_version b))")
  case True
  then obtain s t where st: "snd (split_version a) = Some s" "s \<noteq> []"
      "snd (split_version b) = Some t" "t \<noteq> []"
    by (auto simp: truthy_def split: option.splits)
  let ?A = "split_on CHR ''.'' s" and ?B = "split_on CHR ''.'' t"
  have pf: "preFields a = ?A" "preFields b = ?B" using st by (simp_all add: preFields_def)
  let ?n = "max (length ?A) (length ?B)"
  have n: "?n \<le> M" using assms pf by simp
  have "lex_compare (compare_with slot_lt) (map (at ?A) [0..<M]) (map (at ?B) [0..<M])
      = lex_compare (compare_with slot_lt) (map (at ?A) [0..<?n]) (map (at ?B) [0..<?n])"
    by (rule lex_compare_pad[OF n]) (simp add: at_beyond compare_with_def)
  moreover have "preLoop ?A ?B [0..<?n] =
     (let r = lex_compare (compare_with slot_lt) (map (at ?A) [0..<?n]) (map (at ?B) [0..<?n])
      in if r = 0 then None else Some r)"
    by (rule preLoop_lex_compare) auto
  ultimately show ?thesis
    using True st pf
    by (simp add: comparePre_def then_compare_def releaseRank_def compare_with_def preSlots_def Let_def)
next
  case False
  then consider (l) "\<not> truthy (snd (split_version a))" "truthy (snd (split_version b))"
    | (r) "truthy (snd (split_version a))" "\<not> truthy (snd (split_version b))"
    | (n) "\<not> truthy (snd (split_version a))" "\<not> truthy (snd (split_version b))"
    by blast
  then show ?thesis
  proof cases
    case l
    then show ?thesis by (simp add: comparePre_def then_compare_def releaseRank_def compare_with_def)
  next
    case r
    then show ?thesis by (simp add: comparePre_def then_compare_def releaseRank_def compare_with_def)
  next
    case n
    then have "preFields a = []" "preFields b = []"
      by (auto simp: preFields_def truthy_def split: option.splits)
    then have "lex_compare (compare_with slot_lt) (preSlots M a) (preSlots M b) = 0"
      unfolding preSlots_def by (intro lex_compare_map_zero) (simp add: at_def compare_with_def)
    with n show ?thesis by (simp add: comparePre_def then_compare_def releaseRank_def compare_with_def)
  qed
qed

lemma compareVersions_order:
  assumes "length (parseBase (fst (split_version a))) \<le> N"
          "length (parseBase (fst (split_version b))) \<le> N"
          "length (preFields a) \<le> M" "length (preFields b) \<le> M"
  shows "compareVersions a b = versionOrder N M a b"
proof -
  let ?A = "parseBase (fst (split_version a))" and ?B = "parseBase (fst (split_version b))"
  let ?n = "max (length ?A) (length ?B)"
  have n: "?n \<le> N" using assms by simp
  have "lex_compare (compare_with (<)) (baseSlots N a) (baseSlots N b) =
        lex_compare (compare_with (<)) (map (\<lambda>i. nullish0 (at ?A i)) [0..<?n]) (map (\<lambda>i. nullish0 (at ?B i)) [0..<?n])"
    unfolding baseSlots_def
    by (rule lex_compare_pad[OF n]) (simp add: at_beyond compare_with_def nullish0_def)
  then show ?thesis
    using comparePre_order[OF assms(3,4)]
    by (simp add: compareVersions_def versionOrder_def baseLoop_lex_compare Let_def split_beta
          then_compare_def[of "\<lambda>a b. lex_compare (compare_with (<)) (baseSlots N a) (baseSlots N b)"])
qed

lemma compareVersions_flip: "compareVersions b a = - compareVersions a b"
proof -
  define N where "N = max (length (parseBase (fst (split_version a)))) (length (parseBase (fst (split_version b))))"
  define M where "M = max (length (preFields a)) (length (preFields b))"
  have "compareVersions a b = versionOrder N M a b" "compareVersions b a = versionOrder N M b a"
    by (rule compareVersions_order; simp add: N_def M_def)+
  then show ?thesis using preorder_cmp_flip[OF preorder_cmp_versionOrder, of N M a b] by simp
qed

lemma compareVersions_le_trans:
  assumes "compareVersions a b \<le> 0" "compareVersions b c \<le> 0"
  shows "compareVersions a c \<le> 0"
proof -
  define N where "N = max (length (parseBase (fst (split_version a))))
     (max (length (parseBase (fst (split_version b)))) (length (parseBase (fst (split_version c)))))"
  define M where "M = max (length (preFields a)) (max (length (preFields b)) (length (preFields c)))"
  have "compareVersions a b = versionOrder N M a b" "compareVersions b c = versionOrder N M b c"
       "compareVersions a c = versionOrder N M a c"
    by (rule compareVersions_order; simp add: N_def M_def)+
  then show ?thesis using preorder_cmp_trans[OF preorder_cmp_versionOrder, of N M a b c] assms by simp
qed

section \<open>Sorting with a comparator, and objects\<close>

lemma set_insert_by: "set (insert_by c x xs) = insert x (set xs)"
  by (induction xs) auto

lemma set_sort_by: "set (sort_by c xs) = set xs"
  by (induction xs) (simp_all add: sort_by_def set_insert_by)

lemma distinct_insert_by: "distinct (insert_by c x xs) \<longleftrightarrow> x \<notin> set xs \<and> distinct xs"
  by (induction xs) (auto simp: set_insert_by)

lemma distinct_sort_by: "distinct (sort_by c xs) \<longleftrightarrow> distinct xs"
  by (induction xs) (simp_all add: sort_by_def distinct_insert_by set_sort_by[unfolded sort_by_def])

lemma sorted_insert_by:
  assumes c: "preorder_cmp c"
  shows "sorted_wrt (\<lambda>x y. c x y \<le> 0) xs \<Longrightarrow> sorted_wrt (\<lambda>x y. c x y \<le> 0) (insert_by c x xs)"
proof (induction xs)
  case Nil
  then show ?case by simp
next
  case (Cons y ys)
  show ?case
  proof (cases "c x y \<le> 0")
    case True
    then have "\<forall>z\<in>set ys. c x z \<le> 0"
      using Cons.prems preorder_cmp_trans[OF c, of x y] by auto
    with True Cons.prems show ?thesis by simp
  next
    case False
    then have "c y x \<le> 0" using preorder_cmp_flip[OF c, of x y] by simp
    with False Cons show ?thesis by (auto simp: set_insert_by)
  qed
qed

lemma sorted_sort_by: "preorder_cmp c \<Longrightarrow> sorted_wrt (\<lambda>x y. c x y \<le> 0) (sort_by c xs)"
  by (induction xs) (simp_all add: sort_by_def sorted_insert_by)

lemma preorder_cmp_compareVersions: "preorder_cmp compareVersions"
  unfolding preorder_cmp_def using compareVersions_flip compareVersions_le_trans by blast

lemma set_Object_keys: "set (Object_keys obj) = fst ` set obj"
  by (auto simp: Object_keys_def set_sort_by)

lemma distinct_Object_keys: "distinct (map fst obj) \<Longrightarrow> distinct (Object_keys obj)"
  by (auto simp: Object_keys_def distinct_sort_by set_sort_by)

lemma collectLoop_concat:
  "collectLoop manifests vs acc =
     acc @ concat (map (\<lambda>v. case object_get manifests v of Some m \<Rightarrow> migrations m | None \<Rightarrow> []) vs)"
  by (induction vs arbitrary: acc) (auto split: option.splits)

lemma set_applicableVersions:
  "set (applicableVersions manifests f t) =
     {v \<in> fst ` set manifests. compareVersions v f > 0 \<and> compareVersions v t \<le> 0}"
  by (auto simp: applicableVersions_def set_sort_by set_Object_keys)

lemma distinct_applicableVersions:
  "distinct (map fst manifests) \<Longrightarrow> distinct (applicableVersions manifests f t)"
  by (simp add: applicableVersions_def distinct_sort_by distinct_Object_keys)

lemma sorted_applicableVersions:
  "sorted_wrt (\<lambda>v w. compareVersions v w \<le> 0) (applicableVersions manifests f t)"
  by (simp add: applicableVersions_def sorted_wrt_filter sorted_sort_by preorder_cmp_compareVersions)

lemma applicableVersions_downgrade:
  assumes "compareVersions f t \<ge> 0"
  shows "applicableVersions manifests f t = []"
proof -
  have "\<not> (compareVersions v f > 0 \<and> compareVersions v t \<le> 0)" for v
  proof
    assume a: "compareVersions v f > 0 \<and> compareVersions v t \<le> 0"
    have "compareVersions t f \<le> 0" using assms compareVersions_flip[of t f] by simp
    with a have "compareVersions v f \<le> 0" using compareVersions_le_trans by blast
    with a show False by simp
  qed
  then show ?thesis by (simp add: applicableVersions_def)
qed

section \<open>Properties of the version comparator\<close>

text \<open>
  C4: for all version strings \<open>a\<close> and \<open>b\<close>, whatever their shape,
  \<open>compareVersions a b = - compareVersions b a\<close>, and \<open>compareVersions a a = 0\<close>.
\<close>

theorem compareVersions_antisymmetric:
  "compareVersions a b = - compareVersions b a \<and> compareVersions a a = 0"
proof -
  have "compareVersions a a = - compareVersions a a" by (rule compareVersions_flip)
  then show ?thesis using compareVersions_flip[of b a] by simp
qed

theorem compareVersions_antisymmetric_witness:
  "compareVersions ''1.0.0-beta.1'' ''1.0.0-'' = - compareVersions ''1.0.0-'' ''1.0.0-beta.1''
   \<and> compareVersions ''1.0.0-beta.1'' ''1.0.0-beta.1'' = 0"
  using compareVersions_antisymmetric[of "''1.0.0-beta.1''" "''1.0.0-''"] by simp

section \<open>Properties of the migration plan\<close>

lemma example_versions:
  "compareVersions ''0.2.0'' ''0.3.0'' = - 1"
  "compareVersions ''0.3.0'' ''0.2.0'' = 1"
  "compareVersions ''0.2.0'' ''0.1.0'' = 1"
  "compareVersions ''0.3.0'' ''0.1.0'' = 1"
  "compareVersions ''0.3.0'' ''0.3.0'' = 0"
  by code_simp+

lemma example_load:
  "loadManifests example_env cold =
     (Returned [(''0.3.0'', manifest_of ''0.3.0'' [delete_item]),
                (''0.2.0'', manifest_of ''0.2.0'' [rename_item])],
      \<lparr>manifestCache = Some [(''0.3.0'', manifest_of ''0.3.0'' [delete_item]),
                             (''0.2.0'', manifest_of ''0.2.0'' [rename_item])],
       console_warn = []\<rparr>)"
  by (simp add: loadManifests_def example_env_def cold_def endsWith_def manifest_of_def)

lemma map_of_wf:
  assumes "wf_registry manifests" "v \<in> fst ` set manifests"
  shows "\<exists>m. map_of manifests v = Some m \<and> m \<in> snd ` set manifests \<and> version m = v"
proof -
  from assms(2) obtain m where m: "(v, m) \<in> set manifests" by force
  with assms(1) have "map_of manifests v = Some m" by (simp add: wf_registry_def)
  moreover have "version m = v" using assms(1) m by (auto simp: wf_registry_def list_all_iff)
  moreover have "m \<in> snd ` set manifests" using m by force
  ultimately show ?thesis by blast
qed

lemma object_set_wf:
  assumes "wf_registry obj"
  shows "wf_registry (object_set obj (version m) m)"
proof -
  let ?k = "version m"
  let ?upd = "map (\<lambda>(k', v'). if k' = ?k then (k', m) else (k', v')) obj"
  have keys: "map fst ?upd = map fst obj" by (induction obj) auto
  have "list_all (\<lambda>(k, m). version m = k) ?upd"
    using assms by (fastforce simp: wf_registry_def list_all_iff split: if_splits)
  moreover have "distinct (map fst ?upd)"
    using assms unfolding wf_registry_def keys by blast
  ultimately have "wf_registry ?upd" unfolding wf_registry_def by blast
  moreover have "?k \<notin> set (map fst obj) \<Longrightarrow> wf_registry (obj @ [(?k, m)])"
    using assms by (simp add: wf_registry_def)
  ultimately show ?thesis using assms by simp
qed

lemma loadLoop_wf:
  "wf_registry (fst acc) \<Longrightarrow> wf_registry (fst (loadLoop rd fs acc))"
proof (induction fs arbitrary: acc)
  case Nil
  then show ?case by simp
next
  case (Cons f fs)
  obtain manifests warned where acc: "acc = (manifests, warned)" by (cases acc)
  show ?case
  proof (cases "rd f")
    case Throws
    then show ?thesis using Cons acc by simp
  next
    case NoVersion
    then show ?thesis using Cons acc by simp
  next
    case (Manifest m)
    have "wf_registry (object_set manifests (version m) m)"
      using Cons.prems acc by (intro object_set_wf) simp
    then show ?thesis
      using Manifest Cons.IH[of "(object_set manifests (version m) m, warned)"]
        Cons.IH[of "(manifests, warned)"] Cons.prems acc
      by (simp del: object_set.simps)
  qed
qed

lemma loadManifests_wf:
  assumes "cache_ok st" "loadManifests env st = (Returned manifests, st')"
  shows "wf_registry manifests \<and> cache_ok st'"
proof (cases "manifestCache st")
  case (Some cached)
  then show ?thesis using assms by (auto simp: loadManifests_def cache_ok_def)
next
  case None
  note cold = this
  show ?thesis
  proof (cases "existsSync env")
    case False
    then show ?thesis using assms cold
      by (auto simp: loadManifests_def cache_ok_def wf_registry_def)
  next
    case True
    then obtain entries where e: "readdirSync env = Some entries"
      using assms(2) cold by (cases "readdirSync env") (auto simp: loadManifests_def)
    let ?r = "loadLoop (readJSON env) (filter (\<lambda>f. endsWith f ''.json'') entries) ([], console_warn st)"
    have "wf_registry (fst ?r)" by (rule loadLoop_wf) (simp add: wf_registry_def)
    moreover have "manifests = fst ?r" "manifestCache st' = Some (fst ?r)"
      using assms(2) cold True e by (auto simp: loadManifests_def split_beta Let_def)
    ultimately show ?thesis by (simp add: cache_ok_def)
  qed
qed

text \<open>
  C1: once the manifests are loaded, \<open>getMigrationsForVersion\<close> returns the items of
  exactly the manifests whose version \<open>v\<close> has \<open>compareVersions v from > 0\<close> and
  \<open>compareVersions v to \<le> 0\<close>, each manifest once, the manifests in ascending order of
  the comparator and the items of a manifest in their own order. With a rename at 0.2.0
  and a delete at 0.3.0, the plan from 0.1.0 to 0.3.0 is the rename, then the delete.
\<close>

theorem getMigrationsForVersion_ordered_plan:
  "(cache_ok st \<and> loadManifests env st = (Returned manifests, st') \<longrightarrow>
     (\<exists>ms. distinct ms
        \<and> set ms = {m \<in> snd ` set manifests.
                     compareVersions (version m) fromVersion > 0
                     \<and> compareVersions (version m) toVersion \<le> 0}
        \<and> sorted_wrt (\<lambda>m m'. compareVersions (version m) (version m') \<le> 0) ms
        \<and> getMigrationsForVersion env st fromVersion toVersion
            = (Returned (concat (map migrations ms)), st')))
   \<and> fst (getMigrationsForVersion example_env cold ''0.1.0'' ''0.3.0'')
       = Returned [rename_item, delete_item]"
proof (intro conjI impI)
  assume a: "cache_ok st \<and> loadManifests env st = (Returned manifests, st')"
  then have ld: "loadManifests env st = (Returned manifests, st')" by simp
  have wf: "wf_registry manifests" using a loadManifests_wf by blast
  let ?vs = "applicableVersions manifests fromVersion toVersion"
  let ?g = "\<lambda>v. the (map_of manifests v)"
  let ?ms = "map ?g ?vs"
  have keys: "set ?vs \<subseteq> fst ` set manifests" by (auto simp: set_applicableVersions)
  have g: "map_of manifests v = Some (?g v) \<and> ?g v \<in> snd ` set manifests \<and> version (?g v) = v"
    if "v \<in> fst ` set manifests" for v
  proof -
    from map_of_wf[OF wf that] obtain m
      where "map_of manifests v = Some m" "m \<in> snd ` set manifests" "version m = v"
      by blast
    then show ?thesis by simp
  qed
  have inj: "inj_on ?g (set ?vs)"
  proof (rule inj_onI)
    fix x y assume xy: "x \<in> set ?vs" "y \<in> set ?vs" and eq: "?g x = ?g y"
    have "x \<in> fst ` set manifests" "y \<in> fst ` set manifests" using xy keys by blast+
    then have vx: "version (?g x) = x" and vy: "version (?g y) = y" using g by blast+
    from eq have "version (?g x) = version (?g y)" by (rule arg_cong)
    then show "x = y" by (simp only: vx vy)
  qed
  have d: "distinct ?ms"
    using wf inj by (simp add: distinct_map distinct_applicableVersions wf_registry_def)
  have s: "set ?ms = {m \<in> snd ` set manifests.
                     compareVersions (version m) fromVersion > 0
                     \<and> compareVersions (version m) toVersion \<le> 0}" (is "_ = ?R")
  proof
    show "set ?ms \<subseteq> ?R"
    proof
      fix m assume "m \<in> set ?ms"
      then obtain v where v: "v \<in> set ?vs" "m = ?g v" by auto
      then show "m \<in> ?R" using g[of v] keys by (auto simp: set_applicableVersions)
    qed
    show "?R \<subseteq> set ?ms"
    proof
      fix m assume m: "m \<in> ?R"
      then obtain k where k: "(k, m) \<in> set manifests" by auto
      then have "k \<in> fst ` set manifests" by force
      from g[OF this] k wf have "?g k = m" "version m = k"
        by (auto simp: wf_registry_def)
      moreover have "k \<in> set ?vs"
        using m k \<open>version m = k\<close> by (force simp: set_applicableVersions)
      ultimately show "m \<in> set ?ms" by force
    qed
  qed
  have so: "sorted_wrt (\<lambda>m m'. compareVersions (version m) (version m') \<le> 0) ?ms"
  proof -
    have "sorted_wrt (\<lambda>v w. compareVersions (version (?g v)) (version (?g w)) \<le> 0) ?vs"
      by (rule sorted_wrt_mono_rel[OF _ sorted_applicableVersions])
         (use g keys in \<open>auto simp: subset_iff\<close>)
    then show ?thesis by (simp add: sorted_wrt_map)
  qed
  have eq: "map (\<lambda>v. case object_get manifests v of Some m \<Rightarrow> migrations m | None \<Rightarrow> []) ?vs
      = map (\<lambda>v. migrations (?g v)) ?vs"
  proof (rule map_cong[OF refl])
    fix v assume "v \<in> set ?vs"
    then have "map_of manifests v = Some (?g v)" using g[of v] keys by blast
    then show "(case object_get manifests v of Some m \<Rightarrow> migrations m | None \<Rightarrow> [])
        = migrations (?g v)"
      by (cases "map_of manifests v") (simp_all add: object_get_def)
  qed
  have "migrationsBetween manifests fromVersion toVersion
      = concat (map (\<lambda>v. case object_get manifests v of Some m \<Rightarrow> migrations m | None \<Rightarrow> []) ?vs)"
    by (simp add: migrationsBetween_def collectLoop_concat)
  also have "\<dots> = concat (map (\<lambda>v. migrations (?g v)) ?vs)"
    by (simp only: eq)
  also have "\<dots> = concat (map migrations ?ms)"
    by (simp add: comp_def)
  finally have "migrationsBetween manifests fromVersion toVersion = concat (map migrations ?ms)" .
  then have r: "getMigrationsForVersion env st fromVersion toVersion
            = (Returned (concat (map migrations ?ms)), st')"
    using ld by (simp add: getMigrationsForVersion_def)
  from d s so r show "\<exists>ms. distinct ms
        \<and> set ms = ?R
        \<and> sorted_wrt (\<lambda>m m'. compareVersions (version m) (version m') \<le> 0) ms
        \<and> getMigrationsForVersion env st fromVersion toVersion
            = (Returned (concat (map migrations ms)), st')"
    by blast
next
  have nidx: "\<not> is_array_index ''0.3.0''" "\<not> is_array_index ''0.2.0''"
    by code_simp+
  show "fst (getMigrationsForVersion example_env cold ''0.1.0'' ''0.3.0'')
       = Returned [rename_item, delete_item]"
    by (simp add: getMigrationsForVersion_def example_load migrationsBetween_def
          applicableVersions_def Object_keys_def nidx sort_by_def example_versions
          object_get_def manifest_of_def)
qed

theorem getMigrationsForVersion_ordered_plan_witness:
  "cache_ok cold
   \<and> loadManifests example_env cold =
     (Returned [(''0.3.0'', manifest_of ''0.3.0'' [delete_item]),
                (''0.2.0'', manifest_of ''0.2.0'' [rename_item])],
      \<lparr>manifestCache = Some [(''0.3.0'', manifest_of ''0.3.0'' [delete_item]),
                             (''0.2.0'', manifest_of ''0.2.0'' [rename_item])],
       console_warn = []\<rparr>)
   \<and> (\<exists>ms. distinct ms
        \<and> set ms = {m \<in> snd ` set [(''0.3.0'', manifest_of ''0.3.0'' [delete_item]),
                                    (''0.2.0'', manifest_of ''0.2.0'' [rename_item])].
                     compareVersions (version m) ''0.1.0'' > 0
                     \<and> compareVersions (version m) ''0.3.0'' \<le> 0}
        \<and> sorted_wrt (\<lambda>m m'. compareVersions (version m) (version m') \<le> 0) ms
        \<and> getMigrationsForVersion example_env cold ''0.1.0'' ''0.3.0''
            = (Returned (concat (map migrations ms)),
               \<lparr>manifestCache = Some [(''0.3.0'', manifest_of ''0.3.0'' [delete_item]),
                             (''0.2.0'', manifest_of ''0.2.0'' [rename_item])],
                console_warn = []\<rparr>))"
proof -
  have ok: "cache_ok cold" by (simp add: cache_ok_def cold_def)
  show ?thesis
    using getMigrationsForVersion_ordered_plan[THEN conjunct1, rule_format, OF conjI, OF ok example_load,
        of "''0.1.0''" "''0.3.0''"] example_load ok
    by blast
qed

text \<open>
  C2: when \<open>compareVersions from to \<ge> 0\<close> (same version, or a downgrade), the plan is
  empty for every set of manifests, and the call returns it: nothing is thrown and no
  item is made up.
\<close>

theorem getMigrationsForVersion_downgrade_empty:
  assumes "compareVersions fromVersion toVersion \<ge> 0"
  shows "migrationsBetween manifests fromVersion toVersion = []
     \<and> (loadManifests env st = (Returned manifests, st') \<longrightarrow>
          getMigrationsForVersion env st fromVersion toVersion = (Returned [], st'))"
  using applicableVersions_downgrade[OF assms]
  by (simp add: getMigrationsForVersion_def migrationsBetween_def)

theorem getMigrationsForVersion_downgrade_empty_witness:
  "compareVersions ''0.3.0'' ''0.2.0'' \<ge> 0
   \<and> migrationsBetween [(''0.3.0'', manifest_of ''0.3.0'' [delete_item]),
                (''0.2.0'', manifest_of ''0.2.0'' [rename_item])] ''0.3.0'' ''0.2.0'' = []
   \<and> getMigrationsForVersion example_env cold ''0.3.0'' ''0.2.0'' =
       (Returned [], \<lparr>manifestCache = Some [(''0.3.0'', manifest_of ''0.3.0'' [delete_item]),
                             (''0.2.0'', manifest_of ''0.2.0'' [rename_item])],
                console_warn = []\<rparr>)"
proof -
  have h: "compareVersions ''0.3.0'' ''0.2.0'' \<ge> 0" by (simp add: example_versions)
  show ?thesis
    using getMigrationsForVersion_downgrade_empty[OF h] example_load h by blast
qed

section \<open>Properties of the loader\<close>

lemma loadLoop_skip_failures:
  "fst (loadLoop rd files acc) = fst (loadLoop rd (filter (\<lambda>f. rd f \<noteq> Throws) files) acc)"
proof (induction files arbitrary: acc)
  case Nil
  then show ?case by simp
next
  case (Cons fl files)
  obtain manifests warned where acc: "acc = (manifests, warned)" by (cases acc)
  have w: "fst (loadLoop rd fs (manifests, w1)) = fst (loadLoop rd fs (manifests, w2))" for fs w1 w2
  proof (induction fs arbitrary: manifests w1 w2)
    case Nil
    then show ?case by simp
  next
    case (Cons f fs)
    then show ?case by (cases "rd f") auto
  qed
  show ?case
  proof (cases "rd fl")
    case Throws
    then have "fst (loadLoop rd (fl # files) acc)
        = fst (loadLoop rd files (manifests, warned @ [''Warning: Failed to load migration manifest '' @ fl]))"
      using acc by simp
    also have "\<dots> = fst (loadLoop rd files (manifests, warned))" by (rule w)
    also have "\<dots> = fst (loadLoop rd (filter (\<lambda>f. rd f \<noteq> Throws) files) (manifests, warned))"
      by (rule Cons.IH)
    finally show ?thesis using Throws acc by simp
  next
    case NoVersion
    then show ?thesis using Cons.IH acc by simp
  next
    case (Manifest m)
    then show ?thesis using Cons.IH acc by simp
  qed
qed

lemma loadLoop_keeps_keys:
  "k \<in> fst ` set (fst acc) \<Longrightarrow> k \<in> fst ` set (fst (loadLoop rd files acc))"
proof (induction files arbitrary: acc)
  case Nil
  then show ?case by simp
next
  case (Cons fl files)
  obtain manifests warned where acc: "acc = (manifests, warned)" by (cases acc)
  have s: "k \<in> fst ` set (object_set manifests k' m')" for k' m'
    using Cons.prems acc by (force simp: image_iff)
  show ?case
  proof (cases "rd fl")
    case Throws
    then show ?thesis using Cons acc by simp
  next
    case NoVersion
    then show ?thesis using Cons acc by simp
  next
    case (Manifest m)
    then show ?thesis using Cons.IH[of "(object_set manifests (version m) m, warned)"]
        Cons.IH[of "(manifests, warned)"] Cons.prems s acc
      by (simp del: object_set.simps)
  qed
qed

lemma loadLoop_loads_each:
  assumes "file \<in> set files" "rd file = Manifest m" "version m \<noteq> []" "version m \<noteq> ''__proto__''"
  shows "version m \<in> fst ` set (fst (loadLoop rd files acc))"
  using assms(1)
proof (induction files arbitrary: acc)
  case Nil
  then show ?case by simp
next
  case (Cons f files)
  obtain manifests warned where acc: "acc = (manifests, warned)" by (cases acc)
  show ?case
  proof (cases "f = file")
    case True
    have "version m \<in> fst ` set (object_set manifests (version m) m)"
      using assms(4) by (force simp: image_iff)
    then have "version m \<in> fst ` set (fst (loadLoop rd files (object_set manifests (version m) m, warned)))"
      using loadLoop_keeps_keys[of "version m" "(object_set manifests (version m) m, warned)"]
      by (simp del: object_set.simps)
    then show ?thesis using True assms(2,3) acc by (simp del: object_set.simps)
  next
    case False
    then have "file \<in> set files" using Cons.prems by simp
    then show ?thesis using Cons.IH acc by (cases "rd f") (simp_all del: object_set.simps)
  qed
qed

text \<open>
  C3: with the cache empty and a directory that lists one file holding a valid manifest
  and one file that cannot be parsed, in either order, the loader returns, writes one
  warning for the bad file, and the registry is exactly the entry of the valid manifest.
  In general the registry does not depend on the files that fail: it is the one obtained
  from the other files alone, every file with a manifest and a usable version is in it,
  and the loader returns whenever the directory can be listed.
\<close>

theorem loadManifests_skips_invalid_file:
  "(existsSync env \<and> manifestCache st = None
      \<and> (readdirSync env = Some [good, bad] \<or> readdirSync env = Some [bad, good])
      \<and> endsWith good ''.json'' \<and> endsWith bad ''.json''
      \<and> readJSON env good = Manifest m \<and> version m \<noteq> [] \<and> version m \<noteq> ''__proto__''
      \<and> readJSON env bad = Throws
    \<longrightarrow> loadManifests env st =
          (Returned [(version m, m)],
           st\<lparr>manifestCache := Some [(version m, m)],
              console_warn := console_warn st
                 @ [''Warning: Failed to load migration manifest '' @ bad]\<rparr>))
   \<and> fst (loadLoop rd files acc) = fst (loadLoop rd (filter (\<lambda>f. rd f \<noteq> Throws) files) acc)
   \<and> (file \<in> set files \<and> rd file = Manifest m' \<and> version m' \<noteq> [] \<and> version m' \<noteq> ''__proto__''
        \<longrightarrow> version m' \<in> fst ` set (fst (loadLoop rd files acc)))
   \<and> (readdirSync env' \<noteq> None \<longrightarrow> (\<exists>manifests st'. loadManifests env' st0 = (Returned manifests, st')))"
proof (intro conjI impI)
  assume a: "existsSync env \<and> manifestCache st = None
      \<and> (readdirSync env = Some [good, bad] \<or> readdirSync env = Some [bad, good])
      \<and> endsWith good ''.json'' \<and> endsWith bad ''.json''
      \<and> readJSON env good = Manifest m \<and> version m \<noteq> [] \<and> version m \<noteq> ''__proto__''
      \<and> readJSON env bad = Throws"
  then consider "readdirSync env = Some [good, bad]" | "readdirSync env = Some [bad, good]"
    by blast
  then show "loadManifests env st =
          (Returned [(version m, m)],
           st\<lparr>manifestCache := Some [(version m, m)],
              console_warn := console_warn st
                 @ [''Warning: Failed to load migration manifest '' @ bad]\<rparr>)"
    using a by cases (simp_all add: loadManifests_def)
next
  show "fst (loadLoop rd files acc) = fst (loadLoop rd (filter (\<lambda>f. rd f \<noteq> Throws) files) acc)"
    by (rule loadLoop_skip_failures)
next
  assume "file \<in> set files \<and> rd file = Manifest m' \<and> version m' \<noteq> [] \<and> version m' \<noteq> ''__proto__''"
  then show "version m' \<in> fst ` set (fst (loadLoop rd files acc))"
    using loadLoop_loads_each by blast
next
  assume "readdirSync env' \<noteq> None"
  then show "\<exists>manifests st'. loadManifests env' st0 = (Returned manifests, st')"
    by (auto simp: loadManifests_def Let_def split: option.splits prod.splits)
qed

theorem loadManifests_skips_invalid_file_witness:
  "loadManifests resilience_env cold =
     (Returned [(''0.2.0'', manifest_of ''0.2.0'' [rename_item])],
      \<lparr>manifestCache = Some [(''0.2.0'', manifest_of ''0.2.0'' [rename_item])],
       console_warn = [''Warning: Failed to load migration manifest broken.json'']\<rparr>)"
proof -
  have h: "existsSync resilience_env \<and> manifestCache cold = None
      \<and> (readdirSync resilience_env = Some [''0.2.0.json'', ''broken.json'']
         \<or> readdirSync resilience_env = Some [''broken.json'', ''0.2.0.json''])
      \<and> endsWith ''0.2.0.json'' ''.json'' \<and> endsWith ''broken.json'' ''.json''
      \<and> readJSON resilience_env ''0.2.0.json'' = Manifest (manifest_of ''0.2.0'' [rename_item])
      \<and> version (manifest_of ''0.2.0'' [rename_item]) \<noteq> []
      \<and> version (manifest_of ''0.2.0'' [rename_item]) \<noteq> ''__proto__''
      \<and> readJSON resilience_env ''broken.json'' = Throws"
    by (simp add: resilience_env_def cold_def endsWith_def manifest_of_def)
  from loadManifests_skips_invalid_file[THEN conjunct1, rule_format, OF h]
  show ?thesis by (simp add: cold_def manifest_of_def)
qed

section \<open>Splitting version strings\<close>

lemma split_on_nonempty: "split_on c s \<noteq> []"
  by (induction s) (auto split: list.splits)

lemma split_on_no_sep: "seg \<in> set (split_on c s) \<Longrightarrow> c \<notin> set seg"
  by (induction s arbitrary: seg) (auto split: if_splits list.splits)

lemma split_on_subset: "seg \<in> set (split_on c s) \<Longrightarrow> set seg \<subseteq> set s"
  by (induction s arbitrary: seg) (fastforce split: if_splits list.splits)+

lemma split_on_whole: "c \<notin> set x \<Longrightarrow> split_on c x = [x]"
  by (induction x) auto

lemma split_on_append_sep: "c \<notin> set x \<Longrightarrow> split_on c (x @ c # r) = x # split_on c r"
  by (induction x) auto

lemma split_join:
  "cs \<noteq> [] \<Longrightarrow> list_all (\<lambda>x. c \<notin> set x) cs \<Longrightarrow> split_on c (join_with c cs) = cs"
  by (induction c cs rule: join_with.induct) (auto simp: split_on_whole split_on_append_sep)

lemma split_version_plain: "CHR ''-'' \<notin> set x \<Longrightarrow> split_version x = (x, None)"
  by (simp add: split_version_def split_on_whole)

lemma split_version_suffixed:
  "CHR ''-'' \<notin> set x \<Longrightarrow> split_version (x @ CHR ''-'' # r) = (x, Some (hd (split_on CHR ''-'' r)))"
  using split_on_nonempty[of "CHR ''-''" r]
  by (cases "split_on CHR ''-'' r") (simp_all add: split_version_def split_on_append_sep)

lemma split_version_suffix_no_hyphen: "snd (split_version v) = Some s \<Longrightarrow> CHR ''-'' \<notin> set s"
proof -
  assume a: "snd (split_version v) = Some s"
  obtain x xs where s: "split_on CHR ''-'' v = x # xs"
    using split_on_nonempty[of "CHR ''-''" v] by (cases "split_on CHR ''-'' v") auto
  with a obtain ys where "xs = s # ys" by (cases xs) (simp_all add: split_version_def)
  then have "s \<in> set (split_on CHR ''-'' v)" using s by simp
  then show ?thesis by (rule split_on_no_sep)
qed

lemma preFields_no_hyphen: "f \<in> set (preFields v) \<Longrightarrow> CHR ''-'' \<notin> set f"
proof -
  assume f: "f \<in> set (preFields v)"
  then obtain s where s: "snd (split_version v) = Some s" "f \<in> set (split_on CHR ''.'' s)"
    by (cases "snd (split_version v)") (auto simp: preFields_def split: if_splits)
  then have "set f \<subseteq> set s" using split_on_subset by blast
  moreover have "CHR ''-'' \<notin> set s" using s(1) by (rule split_version_suffix_no_hyphen)
  ultimately show ?thesis by blast
qed

section \<open>Suffixes with a second hyphen\<close>

text \<open>
  C5 says that, of two versions with equal numeric bases of which exactly one has a
  pre-release suffix, the one without a suffix is the greater. The version
  \<open>''1.0.0--rc''\<close> has the base of \<open>''1.0.0''\<close> and the suffix \<open>''-rc''\<close>, and
  \<open>''1.0.0''\<close> has none; the comparator cuts the suffix at its second hyphen, is left
  with the empty string, takes the version for a release and returns 0.
\<close>

theorem compareVersions_hyphen_led_suffix_taken_as_release:
  "spec_suffix ''1.0.0--rc'' = Some ''-rc''
   \<and> spec_suffix ''1.0.0'' = None
   \<and> parseBase (spec_base ''1.0.0--rc'') = parseBase (spec_base ''1.0.0'')
   \<and> split_version ''1.0.0--rc'' = (''1.0.0'', Some [])
   \<and> compareVersions ''1.0.0--rc'' ''1.0.0'' = 0"
  by code_simp

text \<open>
  C7 says that the suffix is everything after the first hyphen. The comparator takes the
  first two pieces of the split at every hyphen, so the suffix ends at the second hyphen:
  for \<open>''1.0.0-beta-2''\<close> it is \<open>''beta''\<close>, and two versions that differ only after a
  second hyphen compare equal.
\<close>

theorem compareVersions_suffix_cut_at_second_hyphen:
  "split_version ''1.0.0-beta-2'' = (''1.0.0'', Some ''beta'')
   \<and> compareVersions ''1.0.0-beta-1'' ''1.0.0-beta-2'' = 0"
  by code_simp

section \<open>Numeric fields are canonical decimal numerals\<close>

lemma is_digit_not_ws: "is_digit c \<Longrightarrow> \<not> is_ws c"
  by (auto simp: is_digit_def is_ws_def)

lemma is_digit_not_sign: "is_digit c \<Longrightarrow> c \<noteq> CHR ''-'' \<and> c \<noteq> CHR ''+''"
  by (auto simp: is_digit_def)

lemma digit_val_range: "is_digit c \<Longrightarrow> 0 \<le> digit_val c \<and> digit_val c \<le> 9"
  by (auto simp: is_digit_def digit_val_def)

lemma is_digit_char_of: "k < 10 \<Longrightarrow> is_digit (char_of (48 + k :: nat))"
  by (simp add: is_digit_def)

lemma char_of_48: "char_of (48 + k :: nat) = CHR ''0'' \<Longrightarrow> k < 10 \<Longrightarrow> k = 0"
proof -
  assume a: "char_of (48 + k :: nat) = CHR ''0''" and k: "k < 10"
  have "(of_char (char_of (48 + k)) :: nat) = 48 + k" using k by simp
  moreover have "(of_char CHR ''0'' :: nat) = 48" by simp
  ultimately show "k = 0" using a by simp
qed

lemma int_digits_nonempty: "int_digits n \<noteq> []"
  by (subst int_digits.simps) simp

lemma int_digits_all: "0 \<le> n \<Longrightarrow> list_all is_digit (int_digits n)"
proof (induction n rule: int_digits.induct)
  case (1 n)
  show ?case
  proof (cases "n < 10")
    case True
    then have "nat n < 10" using 1(2) by simp
    then show ?thesis using True by (subst int_digits.simps) (simp add: is_digit_char_of)
  next
    case False
    then have "0 \<le> n div 10" "nat (n mod 10) < 10" by simp_all
    then show ?thesis using 1(1) False
      by (subst int_digits.simps) (simp add: is_digit_char_of)
  qed
qed

lemma int_digits_hd: "0 < n \<Longrightarrow> hd (int_digits n) \<noteq> CHR ''0''"
proof (induction n rule: int_digits.induct)
  case (1 n)
  show ?case
  proof (cases "n < 10")
    case True
    then have "nat n < 10" "nat n \<noteq> 0" using 1(2) by simp_all
    then show ?thesis using True char_of_48[of "nat n"] by (subst int_digits.simps) auto
  next
    case False
    then have "0 < n div 10" by simp
    then show ?thesis using 1(1) False int_digits_nonempty[of "n div 10"]
      by (subst int_digits.simps) simp
  qed
qed

lemma char_of_48_zero: "char_of (48::nat) = CHR ''0''"
proof -
  have "(of_char (char_of (48::nat)) :: nat) = of_char CHR ''0''" by simp
  then show ?thesis by (simp only: of_char_eq_iff)
qed

lemma int_digits_0: "int_digits 0 = ''0''"
  by (subst int_digits.simps) (simp add: char_of_48_zero)

lemma int_digits_single: "n < 10 \<Longrightarrow> length (int_digits n) = 1"
  by (subst int_digits.simps) simp

lemma canonical_int_digits: "0 \<le> n \<Longrightarrow> canonicalDecimal (int_digits n)"
  unfolding canonicalDecimal_def
  using int_digits_nonempty int_digits_all[of n] int_digits_hd[of n] int_digits_0
  by (cases "n = 0") auto

lemma round_double_small: "n < 2 ^ 53 \<Longrightarrow> round_double n = n"
  by (simp add: round_double_def)

lemma shortest_from_nonneg: "0 \<le> x \<Longrightarrow> 0 \<le> shortest_from x j"
proof (induction j)
  case 0
  then show ?case by simp
next
  case (Suc j)
  have "0 \<le> (x div 10 ^ Suc j) * 10 ^ Suc j"
    using Suc.prems by (simp add: pos_imp_zdiv_nonneg_iff)
  moreover have "0 \<le> (x div 10 ^ Suc j) * 10 ^ Suc j + 10 ^ Suc j"
    using calculation by simp
  ultimately show ?case using Suc by (simp add: Let_def del: power_Suc)
qed

lemma parseInt10_digit_then:
  assumes "is_digit d" "rest \<noteq> []" "\<not> is_digit (hd rest)"
  shows "parseInt10 (d # rest) = Some (digit_val d)"
proof -
  have t: "takeWhile is_digit rest = []" using assms(2,3) by (cases rest) simp_all
  have r: "round_double (digit_val d) = digit_val d"
    using digit_val_range[OF assms(1)] by (intro round_double_small) simp
  show ?thesis
    using assms(1) is_digit_not_ws[OF assms(1)] is_digit_not_sign[OF assms(1)] t r
    by (simp add: parseInt10_def Let_def digits_val_def)
qed

lemma parseInt10_exponent_form:
  assumes "list_all is_digit ds" "parseInt10 (exponent_form ds) = Some k"
  shows "0 \<le> k \<and> k \<le> 9"
proof -
  define m where "m = rev (dropWhile (\<lambda>c. c = CHR ''0'') (rev ds))"
  have md: "list_all is_digit m"
    using assms(1) set_dropWhileD[of _ "\<lambda>c. c = CHR ''0''" "rev ds"]
    by (auto simp: m_def list_all_iff)
  have e: "\<not> is_digit CHR ''e''" "\<not> is_digit CHR ''.''" "\<not> is_ws CHR ''e''"
    by (simp_all add: is_digit_def is_ws_def)
  show ?thesis
  proof (cases m)
    case Nil
    then have "exponent_form ds = ''e+'' @ int_digits (int (length ds) - 1)"
      by (simp add: exponent_form_def m_def[symmetric])
    then have "parseInt10 (exponent_form ds) = None"
      using e by (simp add: parseInt10_def Let_def)
    then show ?thesis using assms(2) by simp
  next
    case (Cons d m')
    then have d: "is_digit d" using md by simp
    obtain rest where rest: "exponent_form ds = d # rest" "rest \<noteq> []" "\<not> is_digit (hd rest)"
    proof (cases "m' = []")
      case True
      then have "exponent_form ds = d # (''e+'' @ int_digits (int (length ds) - 1))"
        using Cons by (simp add: exponent_form_def m_def[symmetric])
      then show ?thesis using that e by simp
    next
      case False
      then have "exponent_form ds
          = d # (CHR ''.'' # m' @ ''e+'' @ int_digits (int (length ds) - 1))"
        using Cons by (cases m') (simp_all add: exponent_form_def m_def[symmetric])
      then show ?thesis using that e by simp
    qed
    have "parseInt10 (exponent_form ds) = Some (digit_val d)"
      unfolding rest(1) by (rule parseInt10_digit_then[OF d rest(2,3)])
    then show ?thesis using assms(2) digit_val_range[OF d] by simp
  qed
qed

lemma parseInt10_Infinity: "parseInt10 ''Infinity'' = None"
  by (simp add: parseInt10_def Let_def is_ws_def is_digit_def)

lemma isNum_nonneg_canonical:
  assumes "parseInt10 f = Some n" "String_nat n = f" "0 \<le> n"
  shows "canonicalDecimal f"
proof (cases "double_infinity \<le> n")
  case True
  then have "f = ''Infinity''" using assms(2) by (simp add: String_nat_def)
  then show ?thesis using assms(1) parseInt10_Infinity by simp
next
  case False
  let ?y = "shortest_decimal n"
  have y: "0 \<le> ?y" using assms(3) by (simp add: shortest_decimal_def shortest_from_nonneg)
  show ?thesis
  proof (cases "length (int_digits ?y) \<le> 21")
    case True
    then have "f = int_digits ?y" using False assms(2) by (simp add: String_nat_def Let_def)
    then show ?thesis using canonical_int_digits[OF y] by simp
  next
    case long: False
    then have f: "f = exponent_form (int_digits ?y)"
      using False assms(2) by (simp add: String_nat_def Let_def)
    have "0 \<le> n \<and> n \<le> 9"
      using parseInt10_exponent_form[OF int_digits_all[OF y]] assms(1) f by simp
    then have "length (int_digits n) = 1" by (intro int_digits_single) simp
    then have "?y = n" by (simp add: shortest_decimal_def)
    then have "length (int_digits ?y) = 1" using \<open>length (int_digits n) = 1\<close> by simp
    then show ?thesis using long by simp
  qed
qed

lemma isNum_canonical_unsigned:
  assumes "isNum f" "f \<noteq> []" "hd f \<noteq> CHR ''-''"
  shows "canonicalDecimal f"
proof -
  from assms(1) obtain n where n: "parseInt10 f = Some n" "String_num n = f"
    by (auto dest: isNum_String)
  have "\<not> n < 0" using n(2) assms(3) by (auto simp: String_num_def)
  then show ?thesis using n isNum_nonneg_canonical[of f n] by (simp add: String_num_def)
qed

lemma isNum_nonempty: "isNum f \<Longrightarrow> f \<noteq> []"
  by (auto simp: isNum_def parseInt10_def)

lemma isNum_canonical:
  assumes "isNum f" "CHR ''-'' \<notin> set f"
  shows "canonicalDecimal f"
proof -
  have ne: "f \<noteq> []" using assms(1) by (rule isNum_nonempty)
  then have "hd f \<noteq> CHR ''-''" using assms(2) by (cases f) auto
  then show ?thesis using assms(1) ne by (intro isNum_canonical_unsigned)
qed

section \<open>Pre-release fields\<close>

lemma leading_zero_not_numeric:
  assumes "r \<noteq> []"
  shows "\<not> isNum (CHR ''0'' # r)"
proof
  assume "isNum (CHR ''0'' # r)"
  then have "canonicalDecimal (CHR ''0'' # r)"
    by (intro isNum_canonical_unsigned) simp_all
  then show False using assms by (simp add: canonicalDecimal_def)
qed

text \<open>
  Beyond the precision of a double the comparator compares what the doubles hold: two
  base parts with the same nearest double are equal, a numeral that its double does not
  print back is a string field, and so is a numeral of more than 21 digits.
\<close>

lemma compareVersions_at_double_precision:
  "compareVersions ''9007199254740993.0.0'' ''9007199254740992.0.0'' = 0"
  "compareVersions ''1.0.0-9007199254740993'' ''1.0.0-10000000000000001'' = 1"
  "isNum ''18014398509481984''" "\<not> isNum ''18014398509481985''"
  "isNum ''100000000000000000000''" "\<not> isNum ''1000000000000000000000''"
  by code_simp+

text \<open>
  C6 says that two versions with equal bases and two pre-release suffixes are ordered
  by their suffixes, split at the dots and compared field by field. The suffixes
  \<open>''rc-1.2''\<close> and \<open>''rc-1.10''\<close> agree on the first field and have the numeric fields 2
  and 10 next, so the first is the smaller; the comparator cuts both suffixes at their
  second hyphen, compares \<open>''rc''\<close> with \<open>''rc''\<close> and returns 0.
\<close>

theorem compareVersions_fields_after_second_hyphen_unread:
  "spec_suffix ''1.0.0-rc-1.2'' = Some ''rc-1.2''
   \<and> spec_suffix ''1.0.0-rc-1.10'' = Some ''rc-1.10''
   \<and> spec_base ''1.0.0-rc-1.2'' = spec_base ''1.0.0-rc-1.10''
   \<and> spec_compare_fields (split_on CHR ''.'' ''rc-1.2'') (split_on CHR ''.'' ''rc-1.10'') = - 1
   \<and> split_version ''1.0.0-rc-1.2'' = (''1.0.0'', Some ''rc'')
   \<and> split_version ''1.0.0-rc-1.10'' = (''1.0.0'', Some ''rc'')
   \<and> compareVersions ''1.0.0-rc-1.2'' ''1.0.0-rc-1.10'' = 0"
  by code_simp

text \<open>
  C10: a pre-release field counts as numeric only when it is a canonical decimal
  numeral; a field with a leading zero, such as 01, is compared as a string, so that
  \<open>compareVersions ''1.0.0-beta.01'' ''1.0.0-beta.2'' = 1\<close>: the numeric field 2 comes
  before the non-numeric field 01.
\<close>

theorem prerelease_field_numeric_only_canonical:
  "(f \<in> set (preFields v) \<and> isNum f \<longrightarrow> canonicalDecimal f)
   \<and> (r \<noteq> [] \<longrightarrow> \<not> isNum (CHR ''0'' # r))
   \<and> \<not> isNum ''01'' \<and> isNum ''2''
   \<and> compareVersions ''1.0.0-beta.01'' ''1.0.0-beta.2'' = 1"
proof (intro conjI impI)
  assume "f \<in> set (preFields v) \<and> isNum f"
  then show "canonicalDecimal f"
    using preFields_no_hyphen isNum_canonical by blast
next
  assume "r \<noteq> []"
  then show "\<not> isNum (CHR ''0'' # r)" by (rule leading_zero_not_numeric)
next
  show "\<not> isNum ''01''" by (rule leading_zero_not_numeric) simp
  show "isNum ''2''" by code_simp
  show "compareVersions ''1.0.0-beta.01'' ''1.0.0-beta.2'' = 1" by code_simp
qed

theorem prerelease_field_numeric_only_canonical_witness:
  "''10'' \<in> set (preFields ''1.0.0-beta.10'') \<and> isNum ''10'' \<and> canonicalDecimal ''10''
   \<and> \<not> isNum ''01''"
proof -
  have h: "''10'' \<in> set (preFields ''1.0.0-beta.10'') \<and> isNum ''10''" by code_simp
  have z: "''1'' \<noteq> []" by simp
  from prerelease_field_numeric_only_canonical[THEN conjunct1, rule_format, OF h]
       prerelease_field_numeric_only_canonical[THEN conjunct2, THEN conjunct1, rule_format, OF z] h
  show ?thesis by blast
qed

section \<open>Leniency on the numeric base\<close>

lemma compareVersions_same_key:
  assumes base: "\<And>i. nullish0 (at (parseBase (fst (split_version a))) i)
                     = nullish0 (at (parseBase (fst (split_version a'))) i)"
    and suffix: "snd (split_version a) = snd (split_version a')"
  shows "compareVersions a b = compareVersions a' b"
proof -
  define N where "N = max (length (parseBase (fst (split_version a))))
     (max (length (parseBase (fst (split_version a')))) (length (parseBase (fst (split_version b)))))"
  define M where "M = max (length (preFields a)) (length (preFields b))"
  have pf: "preFields a' = preFields a" using suffix by (simp add: preFields_def)
  have 1: "compareVersions a b = versionOrder N M a b"
    by (rule compareVersions_order) (simp_all add: N_def M_def)
  have 2: "compareVersions a' b = versionOrder N M a' b"
    by (rule compareVersions_order) (simp_all add: N_def M_def pf)
  have "baseSlots N a = baseSlots N a'" using base by (simp add: baseSlots_def)
  moreover have "releaseRank a = releaseRank a'" using suffix by (simp add: releaseRank_def)
  moreover have "preSlots M a = preSlots M a'" using pf by (simp add: preSlots_def)
  ultimately have "versionOrder N M a b = versionOrder N M a' b"
    by (simp add: versionOrder_def then_compare_def)
  with 1 2 show ?thesis by simp
qed

lemma set_join_with: "set (join_with sep cs) \<subseteq> insert sep (\<Union> (set ` set cs))"
  by (induction sep cs rule: join_with.induct) auto

lemma join_no_hyphen:
  "list_all (\<lambda>c. CHR ''.'' \<notin> set c \<and> CHR ''-'' \<notin> set c) cs \<Longrightarrow>
   CHR ''-'' \<notin> set (join_with CHR ''.'' cs)"
  using set_join_with[of "CHR ''.''" cs] by (auto simp: list_all_iff)

lemma parseBase_join:
  "cs \<noteq> [] \<Longrightarrow> list_all (\<lambda>c. CHR ''.'' \<notin> set c \<and> CHR ''-'' \<notin> set c) cs \<Longrightarrow>
   parseBase (join_with CHR ''.'' cs) = map (\<lambda>n. or_zero (parseInt10 n)) cs"
proof -
  assume a: "cs \<noteq> []" "list_all (\<lambda>c. CHR ''.'' \<notin> set c \<and> CHR ''-'' \<notin> set c) cs"
  then have "list_all (\<lambda>x. CHR ''.'' \<notin> set x) cs" by (simp add: list_all_iff)
  then show ?thesis using a(1) by (simp add: parseBase_def split_join)
qed

lemma split_version_base_rest:
  assumes "CHR ''-'' \<notin> set x" "rest = [] \<or> (\<exists>r. rest = CHR ''-'' # r)"
  shows "fst (split_version (x @ rest)) = x"
    and "snd (split_version (x @ rest)) =
           (case rest of [] \<Rightarrow> None | _ # r \<Rightarrow> Some (hd (split_on CHR ''-'' r)))"
  using assms by (auto simp: split_version_plain split_version_suffixed)

lemma parseInt10_zero: "parseInt10 ''0'' = Some 0"
  by code_simp

lemma or_zero_unparseable:
  "or_zero (parseInt10 (if parseInt10 c = None then ''0'' else c)) = or_zero (parseInt10 c)"
  by (simp add: parseInt10_zero or_zero_def)

text \<open>
  C8: a base component that \<open>parseInt\<close> cannot read counts as 0, and a missing trailing
  component counts as 0: replacing every unreadable component of the base by 0, or
  adding a component 0 at the end of the base, changes no comparison. Nothing is
  rejected: 1.abc.0 equals 1.0.0, and 1.0 equals 1.0.0.
\<close>

theorem compareVersions_lenient_base:
  "(cs \<noteq> [] \<and> list_all (\<lambda>c. CHR ''.'' \<notin> set c \<and> CHR ''-'' \<notin> set c) cs
      \<and> (rest = [] \<or> (\<exists>r. rest = CHR ''-'' # r)) \<longrightarrow>
      compareVersions (join_with CHR ''.'' cs @ rest) b
        = compareVersions
            (join_with CHR ''.'' (map (\<lambda>c. if parseInt10 c = None then ''0'' else c) cs) @ rest) b
      \<and> compareVersions (join_with CHR ''.'' (cs @ [''0'']) @ rest) b
        = compareVersions (join_with CHR ''.'' cs @ rest) b)
   \<and> compareVersions ''1.abc.0'' ''1.0.0'' = 0
   \<and> compareVersions ''1.0'' ''1.0.0'' = 0"
proof (intro conjI impI)
  assume a: "cs \<noteq> [] \<and> list_all (\<lambda>c. CHR ''.'' \<notin> set c \<and> CHR ''-'' \<notin> set c) cs
      \<and> (rest = [] \<or> (\<exists>r. rest = CHR ''-'' # r))"
  then have cs: "cs \<noteq> []" "list_all (\<lambda>c. CHR ''.'' \<notin> set c \<and> CHR ''-'' \<notin> set c) cs"
    and rest: "rest = [] \<or> (\<exists>r. rest = CHR ''-'' # r)"
    by simp_all
  let ?z = "map (\<lambda>c. if parseInt10 c = None then ''0'' else c) cs"
  let ?t = "cs @ [''0'']"
  have z: "?z \<noteq> []" "list_all (\<lambda>c. CHR ''.'' \<notin> set c \<and> CHR ''-'' \<notin> set c) ?z"
    using cs by (auto simp: list_all_iff)
  have t: "?t \<noteq> []" "list_all (\<lambda>c. CHR ''.'' \<notin> set c \<and> CHR ''-'' \<notin> set c) ?t"
    using cs by (simp_all add: list_all_iff)
  note sv = split_version_base_rest[OF join_no_hyphen rest]
  show "compareVersions (join_with CHR ''.'' cs @ rest) b
        = compareVersions (join_with CHR ''.'' ?z @ rest) b"
  proof (rule compareVersions_same_key)
    show "snd (split_version (join_with CHR ''.'' cs @ rest))
        = snd (split_version (join_with CHR ''.'' ?z @ rest))"
      by (simp only: sv(2)[OF cs(2)] sv(2)[OF z(2)])
    fix i
    have "parseBase (join_with CHR ''.'' ?z) = parseBase (join_with CHR ''.'' cs)"
      by (simp only: parseBase_join[OF z] parseBase_join[OF cs] map_map comp_def
            or_zero_unparseable)
    then show "nullish0 (at (parseBase (fst (split_version (join_with CHR ''.'' cs @ rest)))) i)
        = nullish0 (at (parseBase (fst (split_version (join_with CHR ''.'' ?z @ rest)))) i)"
      by (simp only: sv(1)[OF cs(2)] sv(1)[OF z(2)])
  qed
  show "compareVersions (join_with CHR ''.'' ?t @ rest) b
        = compareVersions (join_with CHR ''.'' cs @ rest) b"
  proof (rule compareVersions_same_key)
    show "snd (split_version (join_with CHR ''.'' ?t @ rest))
        = snd (split_version (join_with CHR ''.'' cs @ rest))"
      by (simp only: sv(2)[OF cs(2)] sv(2)[OF t(2)])
    fix i
    have "parseBase (join_with CHR ''.'' ?t) = parseBase (join_with CHR ''.'' cs) @ [0]"
      by (simp only: parseBase_join[OF t] parseBase_join[OF cs])
         (simp add: parseInt10_zero or_zero_def)
    moreover have "nullish0 (at (xs @ [0]) i) = nullish0 (at xs i)" for xs :: "int list"
      by (auto simp: at_def nullish0_def nth_append less_Suc_eq)
    ultimately show "nullish0 (at (parseBase (fst (split_version (join_with CHR ''.'' ?t @ rest)))) i)
        = nullish0 (at (parseBase (fst (split_version (join_with CHR ''.'' cs @ rest)))) i)"
      by (simp only: sv(1)[OF cs(2)] sv(1)[OF t(2)])
  qed
qed code_simp+

theorem compareVersions_lenient_base_witness:
  "compareVersions ''2.x.7-rc'' ''2.0.7'' = compareVersions ''2.0.7-rc'' ''2.0.7''
   \<and> compareVersions ''2.x.7.0-rc'' ''2.0.7'' = compareVersions ''2.x.7-rc'' ''2.0.7''"
proof -
  have h: "[''2'', ''x'', ''7''] \<noteq> []
      \<and> list_all (\<lambda>c. CHR ''.'' \<notin> set c \<and> CHR ''-'' \<notin> set c) [''2'', ''x'', ''7'']
      \<and> (''-rc'' = [] \<or> (\<exists>r. ''-rc'' = CHR ''-'' # r))"
    by simp
  have p: "parseInt10 ''2'' \<noteq> None" "parseInt10 ''x'' = None" "parseInt10 ''7'' \<noteq> None"
    by code_simp+
  from compareVersions_lenient_base[THEN conjunct1, rule_format, OF h, of "''2.0.7''"] p
  show ?thesis by simp
qed

section \<open>Reconciling twice\<close>

lemma applyMigration_keeps:
  "versionMarker (snd (applyMigration item proj)) = versionMarker proj
   \<and> platforms (snd (applyMigration item proj)) = platforms proj"
  by (simp add: applyMigration_def split: option.splits MigrationType.splits)

lemma applyMigrations_keeps:
  "versionMarker (snd (applyMigrations plan proj)) = versionMarker proj
   \<and> platforms (snd (applyMigrations plan proj)) = platforms proj"
proof (induction plan arbitrary: proj)
  case Nil
  then show ?case by simp
next
  case (Cons item plan)
  show ?case
    using Cons.IH[of "snd (applyMigration item proj)"] applyMigration_keeps[of item proj]
    by (simp add: split_beta)
qed

lemma applyTemplate_keeps:
  "versionMarker (snd (applyTemplate opts h bk tf proj)) = versionMarker proj
   \<and> platforms (snd (applyTemplate opts h bk tf proj)) = platforms proj"
  by (simp add: applyTemplate_def writeTemplate_def split: decision.splits)

lemma applyTemplates_keeps:
  "versionMarker (snd (applyTemplates opts h bk tfs proj)) = versionMarker proj
   \<and> platforms (snd (applyTemplates opts h bk tfs proj)) = platforms proj"
proof (induction tfs arbitrary: proj)
  case Nil
  then show ?case by simp
next
  case (Cons tf tfs)
  show ?case
    using Cons.IH[of "snd (applyTemplate opts h bk tf proj)"] applyTemplate_keeps[of opts h bk tf proj]
    by (simp add: split_beta)
qed

lemma settled_no_op:
  "settled opts h proj tf \<Longrightarrow> applyTemplate opts h bk tf proj = ([], proj)"
  by (auto simp: settled_def applyTemplate_def decide_def Let_def split: option.splits)

lemma applyTemplate_settles:
  "settled opts h (snd (applyTemplate opts h bk tf proj)) tf"
  by (auto simp: settled_def applyTemplate_def decide_def writeTemplate_def Let_def
        split: option.splits)

lemma applyTemplate_keeps_settled:
  assumes "settled opts h proj tf" "fst tf' \<noteq> fst tf"
  shows "settled opts h (snd (applyTemplate opts h bk tf' proj)) tf"
  using assms
  by (auto simp: settled_def applyTemplate_def decide_def writeTemplate_def Let_def
        split: option.splits)

lemma applyTemplates_keeps_settled:
  "settled opts h proj tf \<Longrightarrow> fst tf \<notin> fst ` set tfs \<Longrightarrow>
   settled opts h (snd (applyTemplates opts h bk tfs proj)) tf"
proof (induction tfs arbitrary: proj)
  case Nil
  then show ?case by simp
next
  case (Cons tf' tfs)
  have "settled opts h (snd (applyTemplate opts h bk tf' proj)) tf"
    using Cons.prems by (intro applyTemplate_keeps_settled) auto
  then have "settled opts h (snd (applyTemplates opts h bk tfs (snd (applyTemplate opts h bk tf' proj)))) tf"
    using Cons.prems by (intro Cons.IH) auto
  then show ?case by (simp add: split_beta)
qed

lemma applyTemplates_settles:
  "distinct (map fst tfs) \<Longrightarrow> tf \<in> set tfs \<Longrightarrow>
   settled opts h (snd (applyTemplates opts h bk tfs proj)) tf"
proof (induction tfs arbitrary: proj)
  case Nil
  then show ?case by simp
next
  case (Cons tf' tfs)
  let ?p = "snd (applyTemplate opts h bk tf' proj)"
  show ?case
  proof (cases "tf = tf'")
    case True
    have "settled opts h (snd (applyTemplates opts h bk tfs ?p)) tf"
      using Cons.prems(1) True
      by (intro applyTemplates_keeps_settled) (auto simp: applyTemplate_settles)
    then show ?thesis by (simp add: split_beta)
  next
    case False
    then have "settled opts h (snd (applyTemplates opts h bk tfs ?p)) tf"
      using Cons.prems by (intro Cons.IH) auto
    then show ?thesis by (simp add: split_beta)
  qed
qed

lemma all_settled_no_ops:
  "(\<And>tf. tf \<in> set tfs \<Longrightarrow> settled opts h proj tf) \<Longrightarrow>
   applyTemplates opts h bk tfs proj = ([], proj)"
  by (induction tfs) (simp_all add: settled_no_op)

lemma settled_versionMarker:
  "settled opts h (proj\<lparr>versionMarker := v\<rparr>) tf = settled opts h proj tf"
  by (simp add: settled_def split: option.splits)

lemma distinct_candidateTemplates:
  "distinct (map fst (candidateTemplates currentTemplates selection))"
proof -
  let ?kept = "filter (\<lambda>(path, platform, content). platform \<in> set selection)
                 (AList.clearjunk currentTemplates)"
  have "map fst (candidateTemplates currentTemplates selection) = map fst ?kept"
    by (simp add: candidateTemplates_def split_beta)
  moreover have "distinct (map fst ?kept)"
    by (rule distinct_map_filter) (rule AList.distinct_clearjunk)
  ultimately show ?thesis by simp
qed

text \<open>
  C9: for every project, a second reconciliation right after a first one, with the same
  manifests, templates, options and target and no edit in between, performs no file
  operation and leaves the project as it is.
\<close>

theorem reconcile_twice_no_operation:
  "reconcile manifests hashOf backupPath currentTemplates opts targetVersion
     (snd (reconcile manifests hashOf backupPath currentTemplates opts targetVersion proj))
   = ([], snd (reconcile manifests hashOf backupPath currentTemplates opts targetVersion proj))"
proof (cases "dryRun opts")
  case True
  then show ?thesis by (simp add: reconcile_def)
next
  case False
  let ?plan = "migrationsBetween manifests (versionMarker proj) targetVersion"
  let ?migrated = "snd (applyMigrations ?plan proj)"
  let ?cands = "candidateTemplates currentTemplates (platforms proj)"
  let ?written = "snd (applyTemplates opts hashOf backupPath ?cands ?migrated)"
  define r where "r = snd (reconcile manifests hashOf backupPath currentTemplates opts targetVersion proj)"
  have first: "r = (if compareVersions targetVersion (versionMarker proj) < 0 then ?written
                   else ?written\<lparr>versionMarker := targetVersion\<rparr>)"
    unfolding r_def using False by (simp add: reconcile_def split_beta Let_def)
  have keep: "versionMarker ?written = versionMarker proj" "platforms ?written = platforms proj"
    using applyTemplates_keeps[of opts hashOf backupPath ?cands ?migrated]
          applyMigrations_keeps[of ?plan proj]
    by simp_all
  have pl: "platforms r = platforms proj" using keep by (simp add: first)
  have refl0: "compareVersions targetVersion targetVersion = 0"
    using compareVersions_flip[of targetVersion targetVersion] by simp
  have ver: "versionMarker r =
      (if compareVersions targetVersion (versionMarker proj) < 0 then versionMarker proj
       else targetVersion)"
    using keep by (simp add: first)
  have ge: "compareVersions (versionMarker r) targetVersion \<ge> 0"
    using compareVersions_flip[of targetVersion "versionMarker proj"] refl0
    by (simp add: ver)
  have noplan: "migrationsBetween manifests (versionMarker r) targetVersion = []"
    using ge by (simp add: migrationsBetween_def applicableVersions_downgrade)
  have st: "settled opts hashOf r tf" if "tf \<in> set ?cands" for tf
    using applyTemplates_settles[OF distinct_candidateTemplates that, of opts hashOf backupPath ?migrated]
    by (simp add: first settled_versionMarker)
  have tmpl: "applyTemplates opts hashOf backupPath ?cands r = ([], r)"
    by (rule all_settled_no_ops) (rule st)
  have same: "(if compareVersions targetVersion (versionMarker r) < 0 then r
               else r\<lparr>versionMarker := targetVersion\<rparr>) = r"
  proof (cases "compareVersions targetVersion (versionMarker proj) < 0")
    case True
    then show ?thesis by (simp add: ver)
  next
    case False
    then have "versionMarker r = targetVersion" by (simp add: ver)
    then have "r\<lparr>versionMarker := targetVersion\<rparr> = r" by (cases r) simp
    then show ?thesis by simp
  qed
  have "reconcile manifests hashOf backupPath currentTemplates opts targetVersion r = ([], r)"
    using \<open>\<not> dryRun opts\<close>
    by (simp add: reconcile_def Let_def noplan pl tmpl same del: applyTemplates.simps)
  then show ?thesis by (simp only: r_def)
qed

theorem reconcile_twice_no_operation_witness:
  "fst (reconcile [] example_hash example_backup example_templates
            \<lparr>dryRun = False, strictMode = False\<rparr> ''0.2.0'' example_project)
       = [BackedUp ''a.md'' ''a.md.bak'', Updated ''a.md'', Created ''b.md'']
   \<and> reconcile [] example_hash example_backup example_templates
        \<lparr>dryRun = False, strictMode = False\<rparr> ''0.2.0''
        (snd (reconcile [] example_hash example_backup example_templates
               \<lparr>dryRun = False, strictMode = False\<rparr> ''0.2.0'' example_project))
       = ([], snd (reconcile [] example_hash example_backup example_templates
               \<lparr>dryRun = False, strictMode = False\<rparr> ''0.2.0'' example_project))"
proof -
  have v: "\<not> compareVersions ''0.2.0'' ''0.1.0'' < 0" by (simp add: example_versions)
  have c: "candidateTemplates example_templates [''claude'', ''cursor'']
      = [(''a.md'', ''A2''), (''b.md'', ''B1'')]"
    by (simp add: candidateTemplates_def example_templates_def AList.delete_eq)
  have f: "fst (reconcile [] example_hash example_backup example_templates
            \<lparr>dryRun = False, strictMode = False\<rparr> ''0.2.0'' example_project)
       = [BackedUp ''a.md'' ''a.md.bak'', Updated ''a.md'', Created ''b.md'']"
    by (simp add: reconcile_def c migrationsBetween_def applicableVersions_def Object_keys_def
          sort_by_def example_project_def applyTemplate_def decide_def writeTemplate_def
          example_hash_def example_backup_def Let_def)
  from reconcile_twice_no_operation[of "[]" example_hash example_backup example_templates
      "\<lparr>dryRun = False, strictMode = False\<rparr>" "''0.2.0''" example_project] f
  show ?thesis by blast
qed
end
